theory Spec2Isabelle
  imports Main
begin

section \<open>Exceptions and sequencing\<close>

text \<open>
  The generator is Python. Three built-in exceptions can arise in the core pipeline:
  \<open>ValueError\<close> from \<open>int(...)\<close>, \<open>IndexError\<close> from a list subscript and
  \<open>UnicodeEncodeError\<close> from \<open>str.encode('utf-8')\<close>. A call that raises is the
  left injection of a sum.
\<close>

datatype error = ValueError | IndexError | UnicodeEncodeError

definition bind_err :: "error + 'a \<Rightarrow> ('a \<Rightarrow> error + 'b) \<Rightarrow> error + 'b" where
  "bind_err r f = (case r of Inl e \<Rightarrow> Inl e | Inr a \<Rightarrow> f a)"

text \<open>A \<open>for\<close> loop over a list whose body may raise; the state is threaded through.\<close>

fun for_each :: "'a list \<Rightarrow> ('a \<Rightarrow> 's \<Rightarrow> error + 's) \<Rightarrow> 's \<Rightarrow> error + 's" where
  "for_each [] f s = Inr s"
| "for_each (x # xs) f s = (case f x s of Inl e \<Rightarrow> Inl e | Inr s' \<Rightarrow> for_each xs f s')"

text \<open>\<open>range(a, b)\<close>: the integers from \<open>a\<close> up to \<open>b - 1\<close>, empty when \<open>b \<le> a\<close>.\<close>

definition py_range :: "int \<Rightarrow> int \<Rightarrow> int list" where
  "py_range a b = [a..b - 1]"

section \<open>Strings, digits and UTF-8\<close>

text \<open>
  A Python \<open>str\<close> is a sequence of Unicode code points, here natural numbers; a
  \<open>str\<close> holds code points up to \<open>0x10FFFF\<close> only, which \<open>valid_str\<close> records.
\<close>

type_synonym pystr = "nat list"

definition valid_str :: "pystr \<Rightarrow> bool" where
  "valid_str s = list_all (\<lambda>c. c \<le> 0x10FFFF) s"

text \<open>
  The code point of the digit zero of every run of ten decimal digits (Unicode general
  category Nd, Unicode 14 as shipped with CPython 3.11). These are the characters that
  \<open>int(...)\<close> accepts as digits and for which \<open>str.isdecimal\<close> holds.
\<close>

definition decimal_zeros :: "nat list" where
  "decimal_zeros =
    [0x30, 0x660, 0x6f0, 0x7c0, 0x966, 0x9e6, 0xa66, 0xae6, 0xb66, 0xbe6, 0xc66, 0xce6,
     0xd66, 0xde6, 0xe50, 0xed0, 0xf20, 0x1040, 0x1090, 0x17e0, 0x1810, 0x1946, 0x19d0,
     0x1a80, 0x1a90, 0x1b50, 0x1bb0, 0x1c40, 0x1c50, 0xa620, 0xa8d0, 0xa900, 0xa9d0,
     0xa9f0, 0xaa50, 0xabf0, 0xff10, 0x104a0, 0x10d30, 0x11066, 0x110f0, 0x11136,
     0x111d0, 0x112f0, 0x11450, 0x114d0, 0x11650, 0x116c0, 0x11730, 0x118e0, 0x11950,
     0x11c50, 0x11d50, 0x11da0, 0x16a60, 0x16ac0, 0x16b50, 0x1d7ce, 0x1d7d8, 0x1d7e2,
     0x1d7ec, 0x1d7f6, 0x1e140, 0x1e2f0, 0x1e950, 0x1fbf0]"

definition to_decimal :: "nat \<Rightarrow> nat option" where
  "to_decimal c =
     (case find (\<lambda>z. z \<le> c \<and> c < z + 10) decimal_zeros of
        None \<Rightarrow> None
      | Some z \<Rightarrow> Some (c - z))"

text \<open>
  The characters with a digit value that are not decimal digits (superscripts, circled
  and parenthesised digits and the like): \<open>str.isdigit\<close> holds for them, \<open>int(...)\<close>
  rejects them.
\<close>

definition other_digit_ranges :: "(nat \<times> nat) list" where
  "other_digit_ranges =
    [(0xb2, 0xb3), (0xb9, 0xb9), (0x1369, 0x1371), (0x19da, 0x19da), (0x2070, 0x2070),
     (0x2074, 0x2079), (0x2080, 0x2089), (0x2460, 0x2468), (0x2474, 0x247c),
     (0x2488, 0x2490), (0x24ea, 0x24ea), (0x24f5, 0x24fd), (0x24ff, 0x24ff),
     (0x2776, 0x277e), (0x2780, 0x2788), (0x278a, 0x2792), (0x10a40, 0x10a43),
     (0x10e60, 0x10e68), (0x11052, 0x1105a), (0x1f100, 0x1f10a)]"

definition isdigit_char :: "nat \<Rightarrow> bool" where
  "isdigit_char c =
     (to_decimal c \<noteq> None \<or> list_ex (\<lambda>(lo, hi). lo \<le> c \<and> c \<le> hi) other_digit_ranges)"

text \<open>\<open>str.isdigit()\<close>: at least one character, and every character is a digit.\<close>

definition isdigit :: "pystr \<Rightarrow> bool" where
  "isdigit s = (s \<noteq> [] \<and> list_all isdigit_char s)"

text \<open>
  \<open>int(s)\<close> for a string that passed \<open>isdigit\<close> (so it has no sign, blank or
  underscore): the decimal value when every character is a decimal digit, and
  \<open>ValueError\<close> otherwise.
\<close>

definition py_int :: "pystr \<Rightarrow> error + nat" where
  "py_int s =
     (if s \<noteq> [] \<and> list_all (\<lambda>c. to_decimal c \<noteq> None) s
      then Inr (foldl (\<lambda>acc c. 10 * acc + the (to_decimal c)) 0 s)
      else Inl ValueError)"

text \<open>The slice \<open>s[i:j]\<close> for \<open>0 \<le> i \<le> j\<close>.\<close>

definition slice :: "'a list \<Rightarrow> nat \<Rightarrow> nat \<Rightarrow> 'a list" where
  "slice s i j = take (j - i) (drop i s)"

text \<open>\<open>str.encode('utf-8')\<close>: a surrogate code point cannot be encoded.\<close>

definition utf8_char :: "nat \<Rightarrow> error + nat list" where
  "utf8_char c =
     (if c < 0x80 then Inr [c]
      else if c < 0x800 then Inr [0xC0 + c div 64, 0x80 + c mod 64]
      else if 0xD800 \<le> c \<and> c \<le> 0xDFFF then Inl UnicodeEncodeError
      else if c < 0x10000 then
        Inr [0xE0 + c div 4096, 0x80 + (c div 64) mod 64, 0x80 + c mod 64]
      else
        Inr [0xF0 + c div 262144, 0x80 + (c div 4096) mod 64, 0x80 + (c div 64) mod 64,
             0x80 + c mod 64])"

fun utf8_encode :: "pystr \<Rightarrow> error + nat list" where
  "utf8_encode [] = Inr []"
| "utf8_encode (c # cs) =
     (case utf8_char c of
        Inl e \<Rightarrow> Inl e
      | Inr bs \<Rightarrow> (case utf8_encode cs of Inl e \<Rightarrow> Inl e | Inr rest \<Rightarrow> Inr (bs @ rest)))"

section \<open>DataEncoder\<close>

datatype ErrorCorrectionLevel = L | M | Q | H

text \<open>\<open>_get_capacity\<close>: a dictionary lookup with the default 100.\<close>

definition capacities :: "((int \<times> ErrorCorrectionLevel) \<times> nat) list" where
  "capacities = [((1, L), 41), ((1, M), 34), ((1, Q), 27), ((1, H), 17)]"

definition get_capacity :: "int \<Rightarrow> ErrorCorrectionLevel \<Rightarrow> nat" where
  "get_capacity version error_correction =
     (case map_of capacities (version, error_correction) of None \<Rightarrow> 100 | Some c \<Rightarrow> c)"

definition get_character_count_bits :: "int \<Rightarrow> ErrorCorrectionLevel \<Rightarrow> nat" where
  "get_character_count_bits version error_correction =
     (if 1 \<le> version \<and> version \<le> 9
      then (if error_correction \<in> set [L, M] then 10 else 8)
      else 12)"

text \<open>
  \<open>format(number, 'b')\<close> for a number that is not negative: the binary digits, most
  significant first, \<open>0\<close> for zero.
\<close>

fun bin_digits :: "nat \<Rightarrow> int list" where
  "bin_digits n = (if n < 2 then [int n] else bin_digits (n div 2) @ [int (n mod 2)])"

declare bin_digits.simps [simp del]

text \<open>
  \<open>_number_to_bits\<close>: \<open>format(number, '0{bit_length}b')\<close> pads with zeros on the left
  up to \<open>bit_length\<close> digits and never cuts digits off. Every call site passes a length,
  a byte or the value of a digit string, none of them negative.
\<close>

definition number_to_bits :: "nat \<Rightarrow> nat \<Rightarrow> int list" where
  "number_to_bits number bit_length =
     replicate (bit_length - length (bin_digits number)) 0 @ bin_digits number"

text \<open>The group loop of \<open>_encode_numeric\<close>: \<open>while i < len(data)\<close>.\<close>

function numeric_loop :: "pystr \<Rightarrow> nat \<Rightarrow> int list \<Rightarrow> error + int list" where
  "numeric_loop data i result =
     (if i < length data then
        (if i + 3 \<le> length data then
           (case py_int (slice data i (i + 3)) of
              Inl e \<Rightarrow> Inl e
            | Inr number \<Rightarrow> numeric_loop data (i + 3) (result @ number_to_bits number 10))
         else if i + 2 \<le> length data then
           (case py_int (slice data i (i + 2)) of
              Inl e \<Rightarrow> Inl e
            | Inr number \<Rightarrow> numeric_loop data (i + 2) (result @ number_to_bits number 7))
         else
           (case py_int [data ! i] of
              Inl e \<Rightarrow> Inl e
            | Inr number \<Rightarrow> numeric_loop data (i + 1) (result @ number_to_bits number 4)))
      else Inr result)"
  by pat_completeness auto
termination
  by (relation "measure (\<lambda>(data, i, result). length data - i)") auto

declare numeric_loop.simps [simp del]

text \<open>The padding loop: \<open>while len(result) < self.capacity\<close>.\<close>

function pad_loop :: "nat \<Rightarrow> int list \<Rightarrow> int list" where
  "pad_loop capacity result =
     (if length result < capacity
      then pad_loop capacity (result @ [1, 1, 1, 0, 1, 1, 0, 0])
      else result)"
  by pat_completeness auto
termination
  by (relation "measure (\<lambda>(capacity, result). capacity - length result)") auto

declare pad_loop.simps [simp del]

definition encode_numeric :: "int \<Rightarrow> ErrorCorrectionLevel \<Rightarrow> pystr \<Rightarrow> error + int list" where
  "encode_numeric version error_correction data =
     (let count_bits = get_character_count_bits version error_correction;
          char_count = length data;
          result = [0, 0, 0, 1] @ number_to_bits char_count count_bits
      in case numeric_loop data 0 result of
           Inl e \<Rightarrow> Inl e
         | Inr result \<Rightarrow>
             Inr (take (get_capacity version error_correction)
                    (pad_loop (get_capacity version error_correction)
                       (result @ [0, 0, 0, 0]))))"

definition encode_byte :: "int \<Rightarrow> ErrorCorrectionLevel \<Rightarrow> pystr \<Rightarrow> error + int list" where
  "encode_byte version error_correction data =
     (let count_bits = get_character_count_bits version error_correction
      in case utf8_encode data of
           Inl e \<Rightarrow> Inl e
         | Inr bytes \<Rightarrow>
             (let char_count = length bytes;
                  result = [0, 1, 0, 0] @ number_to_bits char_count count_bits;
                  result = foldl (\<lambda>result byte. result @ number_to_bits byte 8) result bytes
              in Inr (take (get_capacity version error_correction)
                        (pad_loop (get_capacity version error_correction)
                           (result @ [0, 0, 0, 0])))))"

definition encode :: "int \<Rightarrow> ErrorCorrectionLevel \<Rightarrow> pystr \<Rightarrow> error + int list" where
  "encode version error_correction data =
     (if isdigit data then encode_numeric version error_correction data
      else encode_byte version error_correction data)"

section \<open>ReedSolomon\<close>

text \<open>\<open>data + data[:10]\<close>; the version and the level are not used.\<close>

definition reed_solomon_encode :: "'a list \<Rightarrow> int \<Rightarrow> ErrorCorrectionLevel \<Rightarrow> 'a list" where
  "reed_solomon_encode data version error_correction = data @ take 10 data"

section \<open>MatrixConstructor\<close>

type_synonym grid = "bool list list"

text \<open>
  A subscript \<open>xs[i]\<close> on a list of length \<open>n\<close>: a negative index counts from the end,
  anything outside \<open>-n .. n - 1\<close> raises \<open>IndexError\<close>.
\<close>

definition py_index :: "nat \<Rightarrow> int \<Rightarrow> error + nat" where
  "py_index n i =
     (if 0 \<le> i \<and> i < int n then Inr (nat i)
      else if - int n \<le> i \<and> i < 0 then Inr (nat (int n + i))
      else Inl IndexError)"

text \<open>\<open>matrix[r][c] = v\<close> and \<open>matrix[r][c]\<close>. The rows are separate lists.\<close>

definition set_cell :: "int \<Rightarrow> int \<Rightarrow> bool \<Rightarrow> grid \<Rightarrow> error + grid" where
  "set_cell r c v m =
     (case py_index (length m) r of
        Inl e \<Rightarrow> Inl e
      | Inr r' \<Rightarrow>
          (case py_index (length (m ! r')) c of
             Inl e \<Rightarrow> Inl e
           | Inr c' \<Rightarrow> Inr (m[r' := (m ! r')[c' := v]])))"

definition get_cell :: "int \<Rightarrow> int \<Rightarrow> grid \<Rightarrow> error + bool" where
  "get_cell r c m =
     (case py_index (length m) r of
        Inl e \<Rightarrow> Inl e
      | Inr r' \<Rightarrow>
          (case py_index (length (m ! r')) c of
             Inl e \<Rightarrow> Inl e
           | Inr c' \<Rightarrow> Inr (m ! r' ! c')))"

text \<open>\<open>self.size\<close>, fixed by the constructor from the version.\<close>

definition matrix_size :: "int \<Rightarrow> int" where
  "matrix_size version = (version - 1) * 4 + 21"

text \<open>\<open>[[False] * self.size for _ in range(self.size)]\<close>\<close>

definition new_matrix :: "int \<Rightarrow> grid" where
  "new_matrix version =
     replicate (nat (matrix_size version)) (replicate (nat (matrix_size version)) False)"

definition finder_cell :: "int \<Rightarrow> int \<Rightarrow> int \<Rightarrow> int \<Rightarrow> grid \<Rightarrow> error + grid" where
  "finder_cell x y i j m =
     (if i = 0 \<or> i = 6 \<or> j = 0 \<or> j = 6 then set_cell (y + j) (x + i) True m
      else if 2 \<le> i \<and> i \<le> 4 \<and> 2 \<le> j \<and> j \<le> 4 then set_cell (y + j) (x + i) True m
      else set_cell (y + j) (x + i) False m)"

definition add_finder_patterns :: "int \<Rightarrow> grid \<Rightarrow> error + grid" where
  "add_finder_patterns version m =
     for_each [(0, 0), (matrix_size version - 7, 0), (0, matrix_size version - 7)]
       (\<lambda>(x, y). for_each (py_range 0 7) (\<lambda>i. for_each (py_range 0 7) (\<lambda>j.
          finder_cell x y i j))) m"

definition get_alignment_positions :: "int \<Rightarrow> (int \<times> int) list" where
  "get_alignment_positions version =
     (if 2 \<le> version \<and> version \<le> 6
      then [(matrix_size version - 7, matrix_size version - 7)]
      else [(matrix_size version - 9, matrix_size version - 9)])"

definition alignment_cell :: "int \<Rightarrow> int \<Rightarrow> int \<Rightarrow> int \<Rightarrow> grid \<Rightarrow> error + grid" where
  "alignment_cell x y i j m =
     (if i = 0 \<or> i = 4 \<or> j = 0 \<or> j = 4 then set_cell (y + j - 2) (x + i - 2) True m
      else if i = 2 \<and> j = 2 then set_cell (y + j - 2) (x + i - 2) True m
      else set_cell (y + j - 2) (x + i - 2) False m)"

definition add_alignment_patterns :: "int \<Rightarrow> grid \<Rightarrow> error + grid" where
  "add_alignment_patterns version m =
     (if version = 1 then Inr m
      else for_each (get_alignment_positions version)
        (\<lambda>(x, y) m.
           if (x < 9 \<and> y < 9) \<or> (x > matrix_size version - 10 \<and> y < 9)
              \<or> (x < 9 \<and> y > matrix_size version - 10)
           then Inr m
           else for_each (py_range 0 5) (\<lambda>i. for_each (py_range 0 5) (\<lambda>j.
                  alignment_cell x y i j)) m) m)"

definition add_timing_patterns :: "int \<Rightarrow> grid \<Rightarrow> error + grid" where
  "add_timing_patterns version m =
     bind_err
       (for_each (py_range 8 (matrix_size version - 8)) (\<lambda>i. set_cell 6 i (i mod 2 = 0)) m)
       (for_each (py_range 8 (matrix_size version - 8)) (\<lambda>i. set_cell i 6 (i mod 2 = 0)))"

definition add_dark_module :: "int \<Rightarrow> grid \<Rightarrow> error + grid" where
  "add_dark_module version m = set_cell (4 * version + 9) 8 True m"

definition format_info :: "bool list" where
  "format_info = replicate 15 False"

definition add_format_info :: "grid \<Rightarrow> error + grid" where
  "add_format_info m =
     for_each (py_range 0 15)
       (\<lambda>i. if i < 8 then set_cell 8 (if i \<noteq> 6 then i else 7) (format_info ! nat i)
            else set_cell (14 - i) 8 (format_info ! nat i)) m"

definition is_function_pattern :: "int \<Rightarrow> int \<Rightarrow> int \<Rightarrow> bool" where
  "is_function_pattern version x y =
     (if (x < 7 \<and> y < 7) \<or> (x > matrix_size version - 8 \<and> y < 7)
         \<or> (x < 7 \<and> y > matrix_size version - 8) then True
      else if x = 6 \<or> y = 6 then True
      else if (x < 9 \<and> y < 9) \<or> (x > matrix_size version - 9 \<and> y < 9)
              \<or> (x < 9 \<and> y > matrix_size version - 9) then True
      else False)"

text \<open>
  The body of the two loops of \<open>_add_data\<close>; the loop state is the grid and
  \<open>bit_index\<close>. \<open>bool(data[bit_index])\<close> is true for every integer except 0.
\<close>

definition data_cell :: "int \<Rightarrow> int list \<Rightarrow> int \<Rightarrow> int \<Rightarrow> grid \<times> nat \<Rightarrow> error + grid \<times> nat" where
  "data_cell version data y x s =
     (case s of (m, bit_index) \<Rightarrow>
        if \<not> is_function_pattern version x y \<and> bit_index < length data
        then (case set_cell y x (data ! bit_index \<noteq> 0) m of
                Inl e \<Rightarrow> Inl e
              | Inr m' \<Rightarrow> Inr (m', bit_index + 1))
        else Inr s)"

definition add_data :: "int \<Rightarrow> int list \<Rightarrow> grid \<Rightarrow> error + grid" where
  "add_data version data m =
     (case for_each (py_range 0 (matrix_size version)) (\<lambda>y.
             for_each (py_range 0 (matrix_size version)) (\<lambda>x.
               data_cell version data y x)) (m, 0) of
        Inl e \<Rightarrow> Inl e
      | Inr (m', bit_index) \<Rightarrow> Inr m')"

definition mask_cell :: "int \<Rightarrow> int \<Rightarrow> int \<Rightarrow> grid \<Rightarrow> error + grid" where
  "mask_cell version y x m =
     (if \<not> is_function_pattern version x y then
        (if (x + y) mod 3 = 0 then
           (case get_cell y x m of Inl e \<Rightarrow> Inl e | Inr b \<Rightarrow> set_cell y x (\<not> b) m)
         else Inr m)
      else Inr m)"

definition apply_mask :: "int \<Rightarrow> grid \<Rightarrow> error + grid" where
  "apply_mask version m =
     for_each (py_range 0 (matrix_size version)) (\<lambda>y.
       for_each (py_range 0 (matrix_size version)) (\<lambda>x. mask_cell version y x)) m"

definition build_matrix :: "int \<Rightarrow> int list \<Rightarrow> grid \<Rightarrow> error + grid" where
  "build_matrix version data m =
     bind_err (add_finder_patterns version m) (\<lambda>m.
     bind_err (add_alignment_patterns version m) (\<lambda>m.
     bind_err (add_timing_patterns version m) (\<lambda>m.
     bind_err (add_dark_module version m) (\<lambda>m.
     bind_err (add_format_info m) (\<lambda>m.
     bind_err (add_data version data m) (\<lambda>m.
     apply_mask version m))))))"

section \<open>QRCode\<close>

text \<open>
  A \<open>QRCode\<close> object keeps its version and level, and through its
  \<open>matrix_constructor\<close>, built once by \<open>__init__\<close>, one grid. Nothing but the cells of
  that grid is ever assigned after construction; the encoder's capacity and the size
  are functions of the version and the level.
\<close>

record QRCode =
  version :: int
  error_correction :: ErrorCorrectionLevel
  matrix :: grid

definition QRCode_init :: "int \<Rightarrow> ErrorCorrectionLevel \<Rightarrow> QRCode" where
  "QRCode_init v ec = \<lparr>version = v, error_correction = ec, matrix = new_matrix v\<rparr>"

text \<open>
  \<open>generate\<close> returns \<open>self.matrix_constructor.matrix\<close> itself. The model returns the
  contents of that grid at the moment of return, together with the object, whose grid
  has the same contents.
\<close>

definition generate :: "pystr \<Rightarrow> QRCode \<Rightarrow> error + grid \<times> QRCode" where
  "generate data q =
     (case encode (version q) (error_correction q) data of
        Inl e \<Rightarrow> Inl e
      | Inr encoded_data \<Rightarrow>
          (let error_corrected_data =
                 reed_solomon_encode encoded_data (version q) (error_correction q)
           in case build_matrix (version q) error_corrected_data (matrix q) of
                Inl e \<Rightarrow> Inl e
              | Inr qr_matrix \<Rightarrow> Inr (qr_matrix, q\<lparr>matrix := qr_matrix\<rparr>)))"

text \<open>
  Two successive calls on one object, \<open>g1 = qr.generate(data)\<close> and then
  \<open>g2 = qr.generate(data)\<close>: the contents of the grid as each call returns it.
\<close>

definition generate_twice :: "pystr \<Rightarrow> QRCode \<Rightarrow> error + grid \<times> grid" where
  "generate_twice data q =
     (case generate data q of
        Inl e \<Rightarrow> Inl e
      | Inr (g1, q1) \<Rightarrow>
          (case generate data q1 of
             Inl e \<Rightarrow> Inl e
           | Inr (g2, q2) \<Rightarrow> Inr (g1, g2)))"

section \<open>The numeric bit stream as the specification words it\<close>

text \<open>
  These definitions follow the specification, not the code: the value of a digit string,
  the unsigned integer of a given width (most significant bit first), the partition of
  the digits into groups of three with a shorter last group, and the stream made of
  the mode indicator \<open>0001\<close>, the count field and the groups.
\<close>

definition digit_of :: "nat \<Rightarrow> nat" where
  "digit_of c = the (to_decimal c)"

fun spec_value :: "nat list \<Rightarrow> nat" where
  "spec_value [] = 0"
| "spec_value (d # ds) = d * 10 ^ length ds + spec_value ds"

definition spec_uint :: "nat \<Rightarrow> nat \<Rightarrow> int list" where
  "spec_uint w n = map (\<lambda>k. int ((n div 2 ^ (w - 1 - k)) mod 2)) [0..<w]"

fun spec_groups :: "'a list \<Rightarrow> 'a list list" where
  "spec_groups [] = []"
| "spec_groups [a] = [[a]]"
| "spec_groups [a, b] = [[a, b]]"
| "spec_groups (a # b # c # rest) = [a, b, c] # spec_groups rest"

definition spec_group_bits :: "pystr \<Rightarrow> int list" where
  "spec_group_bits g =
     spec_uint (if length g = 3 then 10 else if length g = 2 then 7 else 4)
       (spec_value (map digit_of g))"

definition spec_count_width :: "int \<Rightarrow> ErrorCorrectionLevel \<Rightarrow> nat" where
  "spec_count_width v ec =
     (if 1 \<le> v \<and> v \<le> 9 \<and> (ec = L \<or> ec = M) then 10
      else if 1 \<le> v \<and> v \<le> 9 \<and> (ec = Q \<or> ec = H) then 8
      else 12)"

definition spec_numeric_stream :: "int \<Rightarrow> ErrorCorrectionLevel \<Rightarrow> pystr \<Rightarrow> int list" where
  "spec_numeric_stream v ec s =
     [0, 0, 0, 1] @ spec_uint (spec_count_width v ec) (length s)
       @ concat (map spec_group_bits (spec_groups s))"

section \<open>The matrix steps, cell by cell\<close>

text \<open>
  The definitions of this section describe, for one cell, what each step of
  \<open>build_matrix\<close> leaves in it; the lemmas below prove them against the loops.
  A grid is well formed when it is square of the size of its version; \<open>cell m r c\<close>
  reads row \<open>r\<close>, column \<open>c\<close>.
\<close>

definition wf_grid :: "int \<Rightarrow> grid \<Rightarrow> bool" where
  "wf_grid n m = (length m = nat n \<and> (\<forall>row \<in> set m. length row = nat n))"

definition cell :: "grid \<Rightarrow> int \<Rightarrow> int \<Rightarrow> bool" where
  "cell m r c = m ! nat r ! nat c"

definition agrees :: "int \<Rightarrow> grid \<Rightarrow> (int \<Rightarrow> int \<Rightarrow> bool) \<Rightarrow> bool" where
  "agrees n m f = (wf_grid n m \<and> (\<forall>r c. 0 \<le> r \<and> r < n \<and> 0 \<le> c \<and> c < n \<longrightarrow> cell m r c = f r c))"

definition finder_dark :: "int \<Rightarrow> int \<Rightarrow> bool" where
  "finder_dark i j = (i = 0 \<or> i = 6 \<or> j = 0 \<or> j = 6 \<or> (2 \<le> i \<and> i \<le> 4 \<and> 2 \<le> j \<and> j \<le> 4))"

definition alignment_dark :: "int \<Rightarrow> int \<Rightarrow> bool" where
  "alignment_dark i j = (i = 0 \<or> i = 4 \<or> j = 0 \<or> j = 4 \<or> (i = 2 \<and> j = 2))"

definition stamp ::
  "int \<Rightarrow> int \<Rightarrow> int \<Rightarrow> (int \<Rightarrow> int \<Rightarrow> bool) \<Rightarrow> (int \<Rightarrow> int \<Rightarrow> bool) \<Rightarrow> int \<Rightarrow> int \<Rightarrow> bool" where
  "stamp x y w pat f r c =
     (if x \<le> c \<and> c < x + w \<and> y \<le> r \<and> r < y + w then pat (c - x) (r - y) else f r c)"

definition finder_fn :: "int \<Rightarrow> (int \<Rightarrow> int \<Rightarrow> bool) \<Rightarrow> int \<Rightarrow> int \<Rightarrow> bool" where
  "finder_fn v f =
     stamp 0 (matrix_size v - 7) 7 finder_dark
       (stamp (matrix_size v - 7) 0 7 finder_dark (stamp 0 0 7 finder_dark f))"

definition alignment_fn :: "int \<Rightarrow> (int \<Rightarrow> int \<Rightarrow> bool) \<Rightarrow> int \<Rightarrow> int \<Rightarrow> bool" where
  "alignment_fn v f =
     (if v = 1 then f
      else if v \<le> 6 then stamp (matrix_size v - 9) (matrix_size v - 9) 5 alignment_dark f
      else stamp (matrix_size v - 11) (matrix_size v - 11) 5 alignment_dark f)"

definition timing_fn :: "int \<Rightarrow> (int \<Rightarrow> int \<Rightarrow> bool) \<Rightarrow> int \<Rightarrow> int \<Rightarrow> bool" where
  "timing_fn v f r c =
     (if c = 6 \<and> 8 \<le> r \<and> r < matrix_size v - 8 then r mod 2 = 0
      else if r = 6 \<and> 8 \<le> c \<and> c < matrix_size v - 8 then c mod 2 = 0
      else f r c)"

definition dark_fn :: "int \<Rightarrow> (int \<Rightarrow> int \<Rightarrow> bool) \<Rightarrow> int \<Rightarrow> int \<Rightarrow> bool" where
  "dark_fn v f r c = (if r = 4 * v + 9 \<and> c = 8 then True else f r c)"

definition format_fn :: "(int \<Rightarrow> int \<Rightarrow> bool) \<Rightarrow> int \<Rightarrow> int \<Rightarrow> bool" where
  "format_fn f r c =
     (if (r = 8 \<and> (0 \<le> c \<and> c \<le> 5 \<or> c = 7)) \<or> (c = 8 \<and> 0 \<le> r \<and> r \<le> 6) then False
      else f r c)"

definition mask_fn :: "int \<Rightarrow> (int \<Rightarrow> int \<Rightarrow> bool) \<Rightarrow> int \<Rightarrow> int \<Rightarrow> bool" where
  "mask_fn v f r c =
     (if \<not> is_function_pattern v c r \<and> (c + r) mod 3 = 0 then \<not> f r c else f r c)"

definition row_major :: "int \<Rightarrow> (int \<times> int) list" where
  "row_major v = List.product (py_range 0 (matrix_size v)) (py_range 0 (matrix_size v))"

definition rank_in :: "int \<Rightarrow> (int \<times> int) list \<Rightarrow> int \<times> int \<Rightarrow> nat" where
  "rank_in v ps p =
     length (filter (\<lambda>(y, x). \<not> is_function_pattern v x y) (takeWhile (\<lambda>q. q \<noteq> p) ps))"

definition data_rank :: "int \<Rightarrow> int \<Rightarrow> int \<Rightarrow> nat" where
  "data_rank v r c = rank_in v (row_major v) (r, c)"

definition data_fn :: "int \<Rightarrow> int list \<Rightarrow> (int \<Rightarrow> int \<Rightarrow> bool) \<Rightarrow> int \<Rightarrow> int \<Rightarrow> bool" where
  "data_fn v data f r c =
     (if \<not> is_function_pattern v c r \<and> data_rank v r c < length data
      then data ! data_rank v r c \<noteq> 0 else f r c)"

definition build_fn :: "int \<Rightarrow> int list \<Rightarrow> (int \<Rightarrow> int \<Rightarrow> bool) \<Rightarrow> int \<Rightarrow> int \<Rightarrow> bool" where
  "build_fn v data f =
     mask_fn v (data_fn v data (format_fn (dark_fn v (timing_fn v (alignment_fn v
       (finder_fn v f))))))"

definition in_alignment :: "int \<Rightarrow> int \<Rightarrow> int \<Rightarrow> bool" where
  "in_alignment v r c =
     (v \<noteq> 1 \<and>
      (let a = (if v \<le> 6 then matrix_size v - 9 else matrix_size v - 11)
       in a \<le> c \<and> c < a + 5 \<and> a \<le> r \<and> r < a + 5))"

definition function_patterns :: "int \<Rightarrow> grid \<Rightarrow> error + grid" where
  "function_patterns v m =
     bind_err (add_finder_patterns v m) (\<lambda>m.
     bind_err (add_alignment_patterns v m) (\<lambda>m.
     bind_err (add_timing_patterns v m) (\<lambda>m.
     bind_err (add_dark_module v m) add_format_info)))"

definition fixed_fn :: "int \<Rightarrow> (int \<Rightarrow> int \<Rightarrow> bool) \<Rightarrow> int \<Rightarrow> int \<Rightarrow> bool" where
  "fixed_fn v f = format_fn (dark_fn v (timing_fn v (alignment_fn v (finder_fn v f))))"

definition pointwise :: "((int \<Rightarrow> int \<Rightarrow> bool) \<Rightarrow> int \<Rightarrow> int \<Rightarrow> bool) \<Rightarrow> int \<Rightarrow> int \<Rightarrow> bool" where
  "pointwise F r c = (\<exists>W w. \<forall>g. F g r c = (if W then w else g r c))"

definition toggled :: "int \<Rightarrow> nat \<Rightarrow> int \<Rightarrow> int \<Rightarrow> bool" where
  "toggled v len r c =
     (\<not> is_function_pattern v c r \<and> (c + r) mod 3 = 0 \<and> len \<le> data_rank v r c
      \<and> \<not> in_alignment v r c)"

section \<open>The encoder\<close>

lemma length_pad_loop: "capacity \<le> length (pad_loop capacity result)"
proof (induction capacity result rule: pad_loop.induct)
  case (1 capacity result)
  show ?case
  proof (cases "length result < capacity")
    case True
    with 1 show ?thesis by (subst pad_loop.simps) simp
  next
    case False
    then show ?thesis by (subst pad_loop.simps) simp
  qed
qed

lemma pad_loop_prefix: "\<exists>rest. pad_loop capacity result = result @ rest"
proof (induction capacity result rule: pad_loop.induct)
  case (1 capacity result)
  show ?case
  proof (cases "length result < capacity")
    case True
    with 1 obtain rest where "pad_loop capacity (result @ [1, 1, 1, 0, 1, 1, 0, 0]) = (result @ [1, 1, 1, 0, 1, 1, 0, 0]) @ rest"
      by blast
    with True show ?thesis by (subst pad_loop.simps) simp
  next
    case False
    then show ?thesis by (subst pad_loop.simps) simp
  qed
qed

lemma length_take_pad_loop: "length (take capacity (pad_loop capacity result)) = capacity"
  using length_pad_loop [of capacity result] by simp

lemma encode_length: "encode v ec text = Inr bits \<Longrightarrow> length bits = get_capacity v ec"
  by (auto simp: encode_def encode_numeric_def encode_byte_def Let_def
        length_take_pad_loop simp del: length_take
      split: if_splits sum.splits)

subsection \<open>Evaluation at concrete inputs\<close>

lemma to_decimal_ascii:
  "to_decimal 0x31 = Some 1" "to_decimal 0x32 = Some 2" "to_decimal 0x33 = Some 3"
  "to_decimal 0x34 = Some 4" "to_decimal 0x35 = Some 5"
  by (simp_all add: to_decimal_def decimal_zeros_def)



lemma utf8_HI: "utf8_encode [0x48, 0x49] = Inr [0x48, 0x49]"
  by (simp add: utf8_char_def)





lemma cap1M: "get_capacity 1 M = 34" "get_character_count_bits 1 M = 10"
  by (simp_all add: get_capacity_def capacities_def get_character_count_bits_def)







lemma to_decimal_less: "to_decimal c = Some d \<Longrightarrow> d < 10"
  by (auto simp: to_decimal_def find_Some_iff split: option.splits)

lemma number_to_bits_Suc:
  assumes "1 \<le> w"
  shows "number_to_bits n (Suc w) = number_to_bits (n div 2) w @ [int (n mod 2)]"
proof (cases "n < 2")
  case True
  then have "n div 2 = 0" "n mod 2 = n" by simp_all
  moreover have "bin_digits n = [int n]" "bin_digits 0 = [0]"
    using True by (simp_all add: bin_digits.simps)
  moreover from assms have "replicate w (0::int) = 0 # replicate (w - 1) 0"
    by (cases w) simp_all
  ultimately show ?thesis using assms
    by (simp add: number_to_bits_def replicate_append_same)
next
  case False
  then have "bin_digits n = bin_digits (n div 2) @ [int (n mod 2)]"
    by (subst bin_digits.simps) simp
  then show ?thesis by (simp add: number_to_bits_def)
qed

lemma spec_uint_Suc: "spec_uint (Suc w) n = spec_uint w (n div 2) @ [int (n mod 2)]"
proof -
  have "(n div 2 ^ (w - k)) = (n div 2 div 2 ^ (w - 1 - k))" if "k < w" for k
  proof -
    from that have "w - k = Suc (w - 1 - k)" by simp
    then have "(2::nat) ^ (w - k) = 2 * 2 ^ (w - 1 - k)"
      by (simp only: power_Suc)
    then show ?thesis by (simp only: div_mult2_eq)
  qed
  then show ?thesis by (simp add: spec_uint_def)
qed

lemma number_to_bits_spec_uint:
  "1 \<le> w \<Longrightarrow> n < 2 ^ w \<Longrightarrow> number_to_bits n w = spec_uint w n"
proof (induction w arbitrary: n)
  case 0
  then show ?case by simp
next
  case (Suc w)
  show ?case
  proof (cases "w = 0")
    case True
    with Suc.prems have "n < 2" by simp
    then have "bin_digits n = [int n]" by (simp add: bin_digits.simps)
    with True \<open>n < 2\<close> show ?thesis by (simp add: number_to_bits_def spec_uint_def)
  next
    case False
    with Suc.prems have "n div 2 < 2 ^ w" by auto
    with False Suc.IH [of "n div 2"] show ?thesis
      by (simp add: number_to_bits_Suc spec_uint_Suc)
  qed
qed

lemma py_int_digits:
  assumes "s \<noteq> []" "list_all (\<lambda>c. to_decimal c \<noteq> None) s"
  shows "py_int s = Inr (spec_value (map digit_of s))"
proof -
  have "foldl (\<lambda>acc c. 10 * acc + the (to_decimal c)) a s
        = a * 10 ^ length s + spec_value (map digit_of s)" for a
    by (induction s arbitrary: a) (simp_all add: digit_of_def algebra_simps)
  from this [of 0] assms show ?thesis by (simp add: py_int_def)
qed

lemma digit_of_less: "to_decimal c \<noteq> None \<Longrightarrow> digit_of c < 10"
  by (auto simp: digit_of_def dest: to_decimal_less)

lemma drop_eq_ConsD:
  assumes "drop i data = a # rest"
  shows "i < length data" "data ! i = a" "drop (Suc i) data = rest"
proof -
  show i: "i < length data" using assms by (cases "i < length data") simp_all
  from Cons_nth_drop_Suc [OF i] assms show "data ! i = a" "drop (Suc i) data = rest"
    by simp_all
qed

lemma group_bits_1:
  "to_decimal a \<noteq> None \<Longrightarrow> number_to_bits (spec_value (map digit_of [a])) 4 = spec_group_bits [a]"
  using digit_of_less [of a] by (simp add: spec_group_bits_def number_to_bits_spec_uint)

lemma group_bits_2:
  "to_decimal a \<noteq> None \<Longrightarrow> to_decimal b \<noteq> None \<Longrightarrow>
   number_to_bits (spec_value (map digit_of [a, b])) 7 = spec_group_bits [a, b]"
  using digit_of_less [of a] digit_of_less [of b]
  by (simp add: spec_group_bits_def number_to_bits_spec_uint)

lemma group_bits_3:
  "to_decimal a \<noteq> None \<Longrightarrow> to_decimal b \<noteq> None \<Longrightarrow> to_decimal c \<noteq> None \<Longrightarrow>
   number_to_bits (spec_value (map digit_of [a, b, c])) 10 = spec_group_bits [a, b, c]"
  using digit_of_less [of a] digit_of_less [of b] digit_of_less [of c]
  by (simp add: spec_group_bits_def number_to_bits_spec_uint)

lemma numeric_loop_spec:
  "drop i data = xs \<Longrightarrow> list_all (\<lambda>c. to_decimal c \<noteq> None) xs \<Longrightarrow>
   numeric_loop data i r = Inr (r @ concat (map spec_group_bits (spec_groups xs)))"
proof (induction xs arbitrary: i r rule: spec_groups.induct)
  case 1
  then have "\<not> i < length data" by simp
  then show ?case by (subst numeric_loop.simps) simp
next
  case (2 a)
  note d = drop_eq_ConsD [OF "2.prems"(1)]
  from d(3) have len: "length data = Suc i" using d(1) by simp
  from 2 have dg: "number_to_bits (spec_value (map digit_of [a])) 4 = spec_group_bits [a]"
    by (intro group_bits_1) simp
  have n: "numeric_loop data (i + 1) r' = Inr r'" for r'
    using len by (subst numeric_loop.simps) simp
  from 2 have "py_int [a] = Inr (spec_value (map digit_of [a]))"
    by (intro py_int_digits) simp_all
  with len d(2) dg n show ?case
    by (subst numeric_loop.simps) simp
next
  case (3 a b)
  note d = drop_eq_ConsD [OF "3.prems"(1)]
  note e = drop_eq_ConsD [OF d(3)]
  from e(3) have len: "length data = i + 2" using e(1) by simp
  from 3 have dg: "number_to_bits (spec_value (map digit_of [a, b])) 7 = spec_group_bits [a, b]"
    by (intro group_bits_2) simp_all
  have n: "numeric_loop data (i + 2) r' = Inr r'" for r'
    using len by (subst numeric_loop.simps) simp
  have sl: "slice data i (i + 2) = [a, b]"
    using "3.prems"(1) by (simp add: slice_def)
  from 3 have "py_int [a, b] = Inr (spec_value (map digit_of [a, b]))"
    by (intro py_int_digits) simp_all
  with len sl dg n show ?case
    by (subst numeric_loop.simps) simp
next
  case (4 a b c rest)
  note d = drop_eq_ConsD [OF "4.prems"(1)]
  note e = drop_eq_ConsD [OF d(3)]
  note f = drop_eq_ConsD [OF e(3)]
  from f(1) have len: "i + 3 \<le> length data" by simp
  from 4 have dg: "number_to_bits (spec_value (map digit_of [a, b, c])) 10 = spec_group_bits [a, b, c]"
    by (intro group_bits_3) simp_all
  have sl: "slice data i (i + 3) = [a, b, c]"
    using "4.prems"(1) by (simp add: slice_def)
  from f(3) have dr: "drop (i + 3) data = rest" by (simp add: numeral_3_eq_3)
  from "4.prems" have ar: "list_all (\<lambda>c. to_decimal c \<noteq> None) rest" by simp
  from 4 have "py_int [a, b, c] = Inr (spec_value (map digit_of [a, b, c]))"
    by (intro py_int_digits) simp_all
  with len sl dg "4.IH" [OF dr ar] show ?case
    by (subst numeric_loop.simps) simp
qed

lemma length_spec_uint [simp]: "length (spec_uint w n) = w"
  by (simp add: spec_uint_def)

lemma length_groups_ge: "length xs \<le> length (concat (map spec_group_bits (spec_groups xs)))"
  by (induction xs rule: spec_groups.induct) (simp_all add: spec_group_bits_def)

lemma count_width_eq: "get_character_count_bits v ec = spec_count_width v ec"
  by (cases ec) (simp_all add: get_character_count_bits_def spec_count_width_def)

lemma count_width_cases: "spec_count_width v ec \<in> {8, 10, 12}"
  by (simp add: spec_count_width_def)

lemma get_capacity_le: "get_capacity v ec \<le> 100"
  by (cases ec) (simp_all add: get_capacity_def capacities_def)

text \<open>
  C6. For a string of decimal digits whose mode indicator, count field and digit groups
  fit into the capacity, the numeric-mode output begins with \<open>0001\<close>, then the
  count field holding the length of the string in 10 bits (versions 1 to 9, level L or
  M), 8 bits (versions 1 to 9, level Q or H) or 12 bits (otherwise), then the digits in
  groups of three as 10-bit values, a last group of two as 7 bits or of one as 4 bits.
  A string that is not empty reaches the numeric mode through \<open>encode\<close>.
\<close>

theorem encode_numeric_stream:
  assumes digits: "list_all (\<lambda>c. to_decimal c \<noteq> None) s"
    and fits: "length (spec_numeric_stream v ec s) \<le> get_capacity v ec"
  shows "(\<exists>rest. encode_numeric v ec s = Inr (spec_numeric_stream v ec s @ rest))
         \<and> (s \<noteq> [] \<longrightarrow> encode v ec s = encode_numeric v ec s)"
proof -
  let ?w = "spec_count_width v ec"
  let ?cap = "get_capacity v ec"
  from fits get_capacity_le [of v ec] length_groups_ge [of s]
  have "length s < 256" by (simp add: spec_numeric_stream_def)
  moreover have "(256::nat) \<le> 2 ^ ?w" "1 \<le> ?w" by (simp_all add: spec_count_width_def)
  ultimately have cnt: "number_to_bits (length s) ?w = spec_uint ?w (length s)"
    by (intro number_to_bits_spec_uint) simp_all
  have loop: "numeric_loop s 0 ([0, 0, 0, 1] @ number_to_bits (length s) ?w)
              = Inr (spec_numeric_stream v ec s)"
    using numeric_loop_spec [of 0 s s] digits by (simp add: spec_numeric_stream_def cnt)
  obtain rest where rest: "pad_loop ?cap (spec_numeric_stream v ec s @ [0, 0, 0, 0])
      = (spec_numeric_stream v ec s @ [0, 0, 0, 0]) @ rest"
    using pad_loop_prefix by blast
  have "take ?cap ((spec_numeric_stream v ec s @ [0, 0, 0, 0]) @ rest)
        = spec_numeric_stream v ec s @ take (?cap - length (spec_numeric_stream v ec s)) ([0, 0, 0, 0] @ rest)"
    using fits by simp
  with loop rest have "\<exists>rest. encode_numeric v ec s = Inr (spec_numeric_stream v ec s @ rest)"
    by (simp add: encode_numeric_def Let_def count_width_eq del: append_assoc)
  moreover have "isdigit s" if "s \<noteq> []"
    using that digits by (auto simp: isdigit_def isdigit_char_def list_all_iff)
  ultimately show ?thesis by (simp add: encode_def)
qed

theorem encode_numeric_stream_witness:
  "list_all (\<lambda>c. to_decimal c \<noteq> None) [0x31, 0x32, 0x33, 0x34, 0x35]
   \<and> length (spec_numeric_stream 1 M [0x31, 0x32, 0x33, 0x34, 0x35]) \<le> get_capacity 1 M
   \<and> (\<exists>rest. encode_numeric 1 M [0x31, 0x32, 0x33, 0x34, 0x35]
         = Inr (spec_numeric_stream 1 M [0x31, 0x32, 0x33, 0x34, 0x35] @ rest))
   \<and> encode 1 M [0x31, 0x32, 0x33, 0x34, 0x35]
       = encode_numeric 1 M [0x31, 0x32, 0x33, 0x34, 0x35]"
proof -
  have d: "list_all (\<lambda>c. to_decimal c \<noteq> None) [0x31, 0x32, 0x33, 0x34, 0x35]"
    by (simp add: to_decimal_ascii)
  have f: "length (spec_numeric_stream 1 M [0x31, 0x32, 0x33, 0x34, 0x35]) \<le> get_capacity 1 M"
    by (simp add: spec_numeric_stream_def spec_group_bits_def spec_count_width_def cap1M)
  from encode_numeric_stream [OF d f] d f show ?thesis by simp
qed


section \<open>The redundancy stage\<close>

text \<open>
  C7. For every bit list, version and level the redundancy stage returns the bits
  followed by their first \<open>min 10 (length bits)\<close> elements: the result has
  \<open>length bits + min 10 (length bits)\<close> elements and its last \<open>min 10 (length bits)\<close>
  elements are the first ones of the input.
\<close>

theorem reed_solomon_encode_appends_prefix:
  "reed_solomon_encode bits v ec = bits @ take (min 10 (length bits)) bits
   \<and> length (reed_solomon_encode bits v ec) = length bits + min 10 (length bits)
   \<and> drop (length (reed_solomon_encode bits v ec) - min 10 (length bits))
        (reed_solomon_encode bits v ec) = take (min 10 (length bits)) bits"
  by (simp add: reed_solomon_encode_def min_def)

section \<open>The matrix constructor\<close>

lemma agreesD:
  "agrees n m f \<Longrightarrow> 0 \<le> r \<Longrightarrow> r < n \<Longrightarrow> 0 \<le> c \<Longrightarrow> c < n \<Longrightarrow> cell m r c = f r c"
  by (simp add: agrees_def)

lemma py_index_in: "0 \<le> i \<Longrightarrow> i < int n \<Longrightarrow> py_index n i = Inr (nat i)"
  by (simp add: py_index_def)

lemma set_cell_agrees:
  assumes "agrees n m f" "0 \<le> r" "r < n" "0 \<le> c" "c < n"
  shows "\<exists>m'. set_cell r c v m = Inr m' \<and> agrees n m' (\<lambda>r' c'. if r' = r \<and> c' = c then v else f r' c')"
proof -
  from assms have len: "length m = nat n" and row: "length (m ! nat r) = nat n"
    by (auto simp: agrees_def wf_grid_def)
  let ?m' = "m[nat r := (m ! nat r)[nat c := v]]"
  have sc: "set_cell r c v m = Inr ?m'"
    using assms len row by (simp add: set_cell_def py_index_in)
  have wf: "wf_grid n ?m'"
    using assms(1) row unfolding agrees_def wf_grid_def
    by (auto dest!: set_update_subset_insert [THEN subsetD])
  have "cell ?m' r' c' = (if r' = r \<and> c' = c then v else f r' c')"
    if "0 \<le> r'" "r' < n" "0 \<le> c'" "c' < n" for r' c'
  proof -
    from assms(1) that have f: "cell m r' c' = f r' c'" by (simp add: agrees_def)
    show ?thesis
    proof (cases "r' = r")
      case True
      with that assms len row f show ?thesis
        by (auto simp: cell_def nth_list_update)
    next
      case False
      with that assms have "nat r' \<noteq> nat r" by auto
      with f False show ?thesis by (simp add: cell_def)
    qed
  qed
  with sc wf show ?thesis by (auto simp: agrees_def)
qed

lemma get_cell_agrees:
  assumes "agrees n m f" "0 \<le> r" "r < n" "0 \<le> c" "c < n"
  shows "get_cell r c m = Inr (f r c)"
proof -
  from assms have len: "length m = nat n" and row: "length (m ! nat r) = nat n"
    by (auto simp: agrees_def wf_grid_def)
  from assms have "cell m r c = f r c" by (simp add: agrees_def)
  with assms len row show ?thesis by (simp add: get_cell_def py_index_in cell_def)
qed

lemma agrees_cong: "agrees n m f \<Longrightarrow> (\<And>r c. 0 \<le> r \<Longrightarrow> r < n \<Longrightarrow> 0 \<le> c \<Longrightarrow> c < n \<Longrightarrow> f r c = g r c) \<Longrightarrow> agrees n m g"
  by (simp add: agrees_def)

lemma agrees_self: "wf_grid n m \<Longrightarrow> agrees n m (cell m)"
  by (simp add: agrees_def)

lemma agrees_eq:
  assumes "agrees n m f" "agrees n m' f"
  shows "m = m'"
proof (rule nth_equalityI)
  from assms show "length m = length m'" by (simp add: agrees_def wf_grid_def)
next
  fix i assume i: "i < length m"
  with assms have in': "i < nat n" "i < length m'" by (simp_all add: agrees_def wf_grid_def)
  from assms i in' have l: "length (m ! i) = nat n" "length (m' ! i) = nat n"
    by (auto simp: agrees_def wf_grid_def)
  show "m ! i = m' ! i"
  proof (rule nth_equalityI)
    from l show "length (m ! i) = length (m' ! i)" by simp
  next
    fix j assume "j < length (m ! i)"
    with l have j: "j < nat n" by simp
    from in'(1) j have ij: "0 \<le> int i" "int i < n" "0 \<le> int j" "int j < n" by simp_all
    have "cell m (int i) (int j) = f (int i) (int j)"
      "cell m' (int i) (int j) = f (int i) (int j)"
      by (rule agreesD [OF assms(1) ij], rule agreesD [OF assms(2) ij])
    then show "m ! i ! j = m' ! i ! j" by (simp add: cell_def)
  qed
qed

text \<open>Loops\<close>

lemma for_each_append:
  "for_each (xs @ ys) f s = (case for_each xs f s of Inl e \<Rightarrow> Inl e | Inr s' \<Rightarrow> for_each ys f s')"
  by (induction xs arbitrary: s) (auto split: sum.splits)

lemma for_each_map: "for_each (map g xs) f s = for_each xs (\<lambda>x. f (g x)) s"
  by (induction xs arbitrary: s) (auto split: sum.splits)

lemma for_each_nested:
  "for_each xs (\<lambda>i. for_each ys (f i)) s = for_each (List.product xs ys) (\<lambda>(i, j). f i j) s"
  by (induction xs arbitrary: s) (auto simp: for_each_append for_each_map split: sum.splits)

lemma for_each_stamp:
  assumes "agrees n m f"
    and "\<And>i. i \<in> set xs \<Longrightarrow> 0 \<le> R i \<and> R i < n \<and> 0 \<le> C i \<and> C i < n"
    and "\<And>i. i \<in> set xs \<Longrightarrow> V i = val (R i) (C i)"
  shows "\<exists>m'. for_each xs (\<lambda>i. set_cell (R i) (C i) (V i)) m = Inr m'
           \<and> agrees n m' (\<lambda>r c. if (r, c) \<in> (\<lambda>i. (R i, C i)) ` set xs then val r c else f r c)"
  using assms
proof (induction xs arbitrary: m f)
  case Nil
  then show ?case by simp
next
  case (Cons x xs)
  from Cons.prems(2) [of x] have x: "0 \<le> R x" "R x < n" "0 \<le> C x" "C x < n" by simp_all
  from set_cell_agrees [OF Cons.prems(1) x, of "V x"] obtain m1 where
    m1: "set_cell (R x) (C x) (V x) m = Inr m1"
      "agrees n m1 (\<lambda>r' c'. if r' = R x \<and> c' = C x then V x else f r' c')"
    by blast
  from Cons.IH [OF m1(2)] Cons.prems(2,3) obtain m' where
    m': "for_each xs (\<lambda>i. set_cell (R i) (C i) (V i)) m1 = Inr m'"
      "agrees n m' (\<lambda>r c. if (r, c) \<in> (\<lambda>i. (R i, C i)) ` set xs then val r c
          else if r = R x \<and> c = C x then V x else f r c)"
    by fastforce
  from Cons.prems(3) [of x] have vx: "V x = val (R x) (C x)" by simp
  have "agrees n m' (\<lambda>r c. if (r, c) \<in> (\<lambda>i. (R i, C i)) ` set (x # xs) then val r c else f r c)"
    by (rule agrees_cong [OF m'(2)]) (auto simp: vx)
  with m1(1) m'(1) show ?case by simp
qed

lemma set_py_range [simp]: "set (py_range a b) = {a..<b}"
  by (auto simp: py_range_def)

lemma distinct_py_range [simp]: "distinct (py_range a b)"
  by (simp add: py_range_def)

lemma for_each_block:
  assumes "agrees n m f" "0 \<le> x" "x + w \<le> n" "0 \<le> y" "y + w \<le> n"
  shows "\<exists>m'. for_each (py_range 0 w) (\<lambda>i. for_each (py_range 0 w) (\<lambda>j.
                 set_cell (y + j) (x + i) (pat i j))) m = Inr m'
           \<and> agrees n m' (stamp x y w pat f)"
proof -
  let ?R = "\<lambda>(i, j). y + j" and ?C = "\<lambda>(i, j). x + i" and ?V = "\<lambda>(i, j). pat i j"
  let ?xs = "List.product (py_range 0 w) (py_range 0 w)"
  have eq: "(\<lambda>(i, j). set_cell (y + j) (x + i) (pat i j)) = (\<lambda>p. set_cell (?R p) (?C p) (?V p))"
    by (simp add: fun_eq_iff split: prod.splits)
  have rng: "\<And>p. p \<in> set ?xs \<Longrightarrow> 0 \<le> ?R p \<and> ?R p < n \<and> 0 \<le> ?C p \<and> ?C p < n"
    using assms by auto
  have val: "\<And>p. p \<in> set ?xs \<Longrightarrow> ?V p = (\<lambda>r c. pat (c - x) (r - y)) (?R p) (?C p)"
    by auto
  from for_each_stamp [of n m f ?xs ?R ?C ?V, OF assms(1) rng val]
  obtain m' where m': "for_each ?xs (\<lambda>p. set_cell (?R p) (?C p) (?V p)) m = Inr m'"
    "agrees n m' (\<lambda>r c. if (r, c) \<in> (\<lambda>p. (?R p, ?C p)) ` set ?xs then pat (c - x) (r - y) else f r c)"
    by blast
  have img: "(r, c) \<in> (\<lambda>p. (?R p, ?C p)) ` set ?xs \<longleftrightarrow> x \<le> c \<and> c < x + w \<and> y \<le> r \<and> r < y + w"
    for r c
  proof
    assume "(r, c) \<in> (\<lambda>p. (?R p, ?C p)) ` set ?xs"
    then show "x \<le> c \<and> c < x + w \<and> y \<le> r \<and> r < y + w" by auto
  next
    assume a: "x \<le> c \<and> c < x + w \<and> y \<le> r \<and> r < y + w"
    then have "(c - x, r - y) \<in> set ?xs" by auto
    moreover have "(r, c) = (\<lambda>p. (?R p, ?C p)) (c - x, r - y)" by simp
    ultimately show "(r, c) \<in> (\<lambda>p. (?R p, ?C p)) ` set ?xs" by (rule rev_image_eqI)
  qed
  have "agrees n m' (stamp x y w pat f)"
    by (rule agrees_cong [OF m'(2)]) (simp only: img stamp_def)
  with m'(1) show ?thesis by (simp add: for_each_nested eq)
qed

lemma finder_cell_eq: "finder_cell x y i = (\<lambda>j. set_cell (y + j) (x + i) (finder_dark i j))"
  by (auto simp: finder_cell_def finder_dark_def fun_eq_iff)

lemma alignment_cell_eq:
  "alignment_cell x y i = (\<lambda>j. set_cell (y - 2 + j) (x - 2 + i) (alignment_dark i j))"
  by (auto simp: alignment_cell_def alignment_dark_def fun_eq_iff algebra_simps)

lemma add_finder_patterns_agrees:
  assumes "agrees (matrix_size v) m f" "1 \<le> v"
  shows "\<exists>m'. add_finder_patterns v m = Inr m' \<and> agrees (matrix_size v) m' (finder_fn v f)"
proof -
  let ?n = "matrix_size v"
  from assms(2) have n: "21 \<le> ?n" by (simp add: matrix_size_def)
  let ?blk = "\<lambda>x y. for_each (py_range 0 7) (\<lambda>i. for_each (py_range 0 7) (\<lambda>j.
                 set_cell (y + j) (x + i) (finder_dark i j)))"
  from for_each_block [OF assms(1), of 0 7 0 finder_dark] n obtain m1 where
    m1: "?blk 0 0 m = Inr m1" "agrees ?n m1 (stamp 0 0 7 finder_dark f)" by auto
  from for_each_block [OF m1(2), of "?n - 7" 7 0 finder_dark] n obtain m2 where
    m2: "?blk (?n - 7) 0 m1 = Inr m2"
      "agrees ?n m2 (stamp (?n - 7) 0 7 finder_dark (stamp 0 0 7 finder_dark f))" by auto
  from for_each_block [OF m2(2), of 0 7 "?n - 7" finder_dark] n obtain m3 where
    m3: "?blk 0 (?n - 7) m2 = Inr m3" "agrees ?n m3 (finder_fn v f)"
    by (auto simp: finder_fn_def)
  from m1(1) m2(1) m3 show ?thesis
    by (simp add: add_finder_patterns_def finder_cell_eq)
qed

lemma add_alignment_patterns_agrees:
  assumes "agrees (matrix_size v) m f" "1 \<le> v"
  shows "\<exists>m'. add_alignment_patterns v m = Inr m' \<and> agrees (matrix_size v) m' (alignment_fn v f)"
proof (cases "v = 1")
  case True
  with assms show ?thesis by (simp add: add_alignment_patterns_def alignment_fn_def)
next
  case False
  let ?n = "matrix_size v"
  from assms(2) False have n: "25 \<le> ?n" by (simp add: matrix_size_def)
  show ?thesis
  proof (cases "v \<le> 6")
    case True
    from for_each_block [OF assms(1), of "?n - 7 - 2" 5 "?n - 7 - 2" alignment_dark] n obtain m' where
      "for_each (py_range 0 5) (\<lambda>i. for_each (py_range 0 5) (\<lambda>j.
          set_cell (?n - 7 - 2 + j) (?n - 7 - 2 + i) (alignment_dark i j))) m = Inr m'"
      "agrees ?n m' (stamp (?n - 7 - 2) (?n - 7 - 2) 5 alignment_dark f)" by auto
    with True False assms(2) n show ?thesis
      by (simp add: add_alignment_patterns_def alignment_fn_def get_alignment_positions_def
          alignment_cell_eq)
  next
    case v: False
    then have n': "45 \<le> ?n" by (simp add: matrix_size_def)
    from for_each_block [OF assms(1), of "?n - 9 - 2" 5 "?n - 9 - 2" alignment_dark] n obtain m' where
      "for_each (py_range 0 5) (\<lambda>i. for_each (py_range 0 5) (\<lambda>j.
          set_cell (?n - 9 - 2 + j) (?n - 9 - 2 + i) (alignment_dark i j))) m = Inr m'"
      "agrees ?n m' (stamp (?n - 9 - 2) (?n - 9 - 2) 5 alignment_dark f)" by auto
    with v False assms(2) n' show ?thesis
      by (simp add: add_alignment_patterns_def alignment_fn_def get_alignment_positions_def
          alignment_cell_eq)
  qed
qed

lemma add_timing_patterns_agrees:
  assumes "agrees (matrix_size v) m f" "1 \<le> v"
  shows "\<exists>m'. add_timing_patterns v m = Inr m' \<and> agrees (matrix_size v) m' (timing_fn v f)"
proof -
  let ?n = "matrix_size v"
  let ?xs = "py_range 8 (?n - 8)"
  from assms(2) have n: "21 \<le> ?n" by (simp add: matrix_size_def)
  have r1: "\<And>i. i \<in> set ?xs \<Longrightarrow> 0 \<le> (6::int) \<and> 6 < ?n \<and> 0 \<le> i \<and> i < ?n"
    using n by auto
  from for_each_stamp [of ?n m f ?xs "\<lambda>i. 6" "\<lambda>i. i" "\<lambda>i. i mod 2 = 0" "\<lambda>r c. c mod 2 = 0",
      OF assms(1) r1]
  obtain m1 where m1: "for_each ?xs (\<lambda>i. set_cell 6 i (i mod 2 = 0)) m = Inr m1"
    "agrees ?n m1 (\<lambda>r c. if (r, c) \<in> (\<lambda>i. (6, i)) ` set ?xs then c mod 2 = 0 else f r c)"
    by auto
  have r2: "\<And>i. i \<in> set ?xs \<Longrightarrow> 0 \<le> i \<and> i < ?n \<and> 0 \<le> (6::int) \<and> 6 < ?n"
    using n by auto
  from for_each_stamp [of ?n m1 _ ?xs "\<lambda>i. i" "\<lambda>i. 6" "\<lambda>i. i mod 2 = 0" "\<lambda>r c. r mod 2 = 0",
      OF m1(2) r2]
  obtain m2 where m2: "for_each ?xs (\<lambda>i. set_cell i 6 (i mod 2 = 0)) m1 = Inr m2"
    "agrees ?n m2 (\<lambda>r c. if (r, c) \<in> (\<lambda>i. (i, 6)) ` set ?xs then r mod 2 = 0
         else if (r, c) \<in> (\<lambda>i. (6, i)) ` set ?xs then c mod 2 = 0 else f r c)"
    by auto
  have "agrees ?n m2 (timing_fn v f)"
    by (rule agrees_cong [OF m2(2)]) (auto simp: timing_fn_def)
  with m1(1) m2(1) show ?thesis by (simp add: add_timing_patterns_def bind_err_def)
qed

lemma add_dark_module_agrees:
  assumes "agrees (matrix_size v) m f" "1 \<le> v"
  shows "\<exists>m'. add_dark_module v m = Inr m' \<and> agrees (matrix_size v) m' (dark_fn v f)"
proof -
  from assms(2) have "0 \<le> 4 * v + 9" "4 * v + 9 < matrix_size v" "(0::int) \<le> 8" "8 < matrix_size v"
    by (simp_all add: matrix_size_def)
  from set_cell_agrees [OF assms(1) this, of True] obtain m' where
    m': "set_cell (4 * v + 9) 8 True m = Inr m'"
      "agrees (matrix_size v) m' (\<lambda>r' c'. if r' = 4 * v + 9 \<and> c' = 8 then True else f r' c')"
    by blast
  have "agrees (matrix_size v) m' (dark_fn v f)"
    by (rule agrees_cong [OF m'(2)]) (simp add: dark_fn_def)
  with m'(1) show ?thesis by (simp add: add_dark_module_def)
qed

lemma add_format_info_agrees:
  assumes "agrees n m f" "9 \<le> n"
  shows "\<exists>m'. add_format_info m = Inr m' \<and> agrees n m' (format_fn f)"
proof -
  let ?R = "\<lambda>i::int. if i < 8 then 8 else 14 - i"
  let ?C = "\<lambda>i::int. if i < 8 then (if i \<noteq> 6 then i else 7) else 8"
  let ?V = "\<lambda>i::int. format_info ! nat i"
  let ?xs = "py_range 0 15"
  have body: "(\<lambda>i. if i < 8 then set_cell 8 (if i \<noteq> 6 then i else 7) (format_info ! nat i)
                   else set_cell (14 - i) 8 (format_info ! nat i))
              = (\<lambda>i. set_cell (?R i) (?C i) (?V i))"
    by (auto simp: fun_eq_iff)
  have rng: "\<And>i. i \<in> set ?xs \<Longrightarrow> 0 \<le> ?R i \<and> ?R i < n \<and> 0 \<le> ?C i \<and> ?C i < n"
    using assms(2) by auto
  have val: "\<And>i. i \<in> set ?xs \<Longrightarrow> ?V i = (\<lambda>r c. False) (?R i) (?C i)"
    by (auto simp: format_info_def)
  from for_each_stamp [of n m f ?xs ?R ?C ?V "\<lambda>r c. False", OF assms(1) rng val]
  obtain m' where m': "for_each ?xs (\<lambda>i. set_cell (?R i) (?C i) (?V i)) m = Inr m'"
    "agrees n m' (\<lambda>r c. if (r, c) \<in> (\<lambda>i. (?R i, ?C i)) ` set ?xs then False else f r c)"
    by blast
  have img: "(r, c) \<in> (\<lambda>i. (?R i, ?C i)) ` set ?xs
      \<longleftrightarrow> (r = 8 \<and> (0 \<le> c \<and> c \<le> 5 \<or> c = 7)) \<or> (c = 8 \<and> 0 \<le> r \<and> r \<le> 6)" for r c
  proof
    assume "(r, c) \<in> (\<lambda>i. (?R i, ?C i)) ` set ?xs"
    then show "(r = 8 \<and> (0 \<le> c \<and> c \<le> 5 \<or> c = 7)) \<or> (c = 8 \<and> 0 \<le> r \<and> r \<le> 6)"
      by (auto split: if_splits)
  next
    assume a: "(r = 8 \<and> (0 \<le> c \<and> c \<le> 5 \<or> c = 7)) \<or> (c = 8 \<and> 0 \<le> r \<and> r \<le> 6)"
    define i where "i = (if r = 8 \<and> c \<noteq> 8 then (if c = 7 then 6 else c) else 14 - r)"
    from a have "i \<in> set ?xs" "(r, c) = (?R i, ?C i)" by (auto simp: i_def)
    then show "(r, c) \<in> (\<lambda>i. (?R i, ?C i)) ` set ?xs" by (rule_tac rev_image_eqI)
  qed
  have "agrees n m' (format_fn f)"
    by (rule agrees_cong [OF m'(2)]) (simp only: img format_fn_def)
  with m'(1) show ?thesis unfolding add_format_info_def body by blast
qed

lemma mask_loop_agrees:
  assumes "agrees n m f" "distinct ps"
    and "\<And>y x. (y, x) \<in> set ps \<Longrightarrow> 0 \<le> y \<and> y < n \<and> 0 \<le> x \<and> x < n"
  shows "\<exists>m'. for_each ps (\<lambda>(y, x). mask_cell v y x) m = Inr m'
           \<and> agrees n m' (\<lambda>r c. if (r, c) \<in> set ps then mask_fn v f r c else f r c)"
  using assms
proof (induction ps arbitrary: m f)
  case Nil
  then show ?case by simp
next
  case (Cons p ps)
  obtain y x where p: "p = (y, x)" by (cases p)
  from Cons.prems(3) [of y x] p have yx: "0 \<le> y" "y < n" "0 \<le> x" "x < n" by simp_all
  let ?f1 = "\<lambda>r c. if r = y \<and> c = x then mask_fn v f y x else f r c"
  have "\<exists>m1. mask_cell v y x m = Inr m1 \<and> agrees n m1 ?f1"
  proof (cases "\<not> is_function_pattern v x y \<and> (x + y) mod 3 = 0")
    case True
    from set_cell_agrees [OF Cons.prems(1) yx, of "\<not> f y x"] obtain m1 where
      m1: "set_cell y x (\<not> f y x) m = Inr m1"
      "agrees n m1 (\<lambda>r' c'. if r' = y \<and> c' = x then \<not> f y x else f r' c')" by blast
    from True m1(1) get_cell_agrees [OF Cons.prems(1) yx]
    have "mask_cell v y x m = Inr m1" by (simp add: mask_cell_def)
    moreover have "agrees n m1 ?f1"
      by (rule agrees_cong [OF m1(2)]) (use True in \<open>simp add: mask_fn_def\<close>)
    ultimately show ?thesis by blast
  next
    case False
    then have "mask_cell v y x m = Inr m" by (auto simp: mask_cell_def)
    moreover have "agrees n m ?f1"
      by (rule agrees_cong [OF Cons.prems(1)]) (use False in \<open>auto simp: mask_fn_def\<close>)
    ultimately show ?thesis by blast
  qed
  then obtain m1 where m1: "mask_cell v y x m = Inr m1" "agrees n m1 ?f1" by blast
  from Cons.prems(2) have d: "distinct ps" "p \<notin> set ps" by simp_all
  from Cons.IH [OF m1(2) d(1)] Cons.prems(3) obtain m' where
    m': "for_each ps (\<lambda>(y, x). mask_cell v y x) m1 = Inr m'"
      "agrees n m' (\<lambda>r c. if (r, c) \<in> set ps then mask_fn v ?f1 r c else ?f1 r c)"
    by fastforce
  have "agrees n m' (\<lambda>r c. if (r, c) \<in> set (p # ps) then mask_fn v f r c else f r c)"
    by (rule agrees_cong [OF m'(2)]) (use d(2) p in \<open>auto simp: mask_fn_def\<close>)
  with m1(1) m'(1) p show ?case by auto
qed

lemma apply_mask_agrees:
  assumes "agrees (matrix_size v) m f"
  shows "\<exists>m'. apply_mask v m = Inr m' \<and> agrees (matrix_size v) m' (mask_fn v f)"
proof -
  let ?n = "matrix_size v"
  have d: "distinct (row_major v)" by (simp add: row_major_def distinct_product)
  have r: "\<And>y x. (y, x) \<in> set (row_major v) \<Longrightarrow> 0 \<le> y \<and> y < ?n \<and> 0 \<le> x \<and> x < ?n"
    by (auto simp: row_major_def)
  from mask_loop_agrees [OF assms d r, of v] obtain m' where
    m': "for_each (row_major v) (\<lambda>(y, x). mask_cell v y x) m = Inr m'"
      "agrees ?n m' (\<lambda>r c. if (r, c) \<in> set (row_major v) then mask_fn v f r c else f r c)"
    by blast
  have "agrees ?n m' (mask_fn v f)"
    by (rule agrees_cong [OF m'(2)]) (auto simp: row_major_def)
  with m'(1) show ?thesis by (simp add: apply_mask_def for_each_nested row_major_def)
qed

lemma rank_in_Cons:
  "rank_in v (p # ps) q =
     (if q = p then 0
      else (if \<not> is_function_pattern v (snd p) (fst p) then 1 else 0) + rank_in v ps q)"
  by (auto simp: rank_in_def split: prod.splits)

lemma data_loop_agrees:
  assumes "agrees n m f" "distinct ps"
    and "\<And>y x. (y, x) \<in> set ps \<Longrightarrow> 0 \<le> y \<and> y < n \<and> 0 \<le> x \<and> x < n"
  shows "\<exists>m' k'. for_each ps (\<lambda>(y, x). data_cell v data y x) (m, k) = Inr (m', k')
           \<and> agrees n m' (\<lambda>r c. if (r, c) \<in> set ps \<and> \<not> is_function_pattern v c r
                                    \<and> k + rank_in v ps (r, c) < length data
                                 then data ! (k + rank_in v ps (r, c)) \<noteq> 0 else f r c)"
  using assms
proof (induction ps arbitrary: m f k)
  case Nil
  then show ?case by simp
next
  case (Cons p ps)
  obtain y x where p: "p = (y, x)" by (cases p)
  from Cons.prems(3) [of y x] p have yx: "0 \<le> y" "y < n" "0 \<le> x" "x < n" by simp_all
  from Cons.prems(2) have d: "distinct ps" "p \<notin> set ps" by simp_all
  let ?goal = "\<lambda>r c. if (r, c) \<in> set (p # ps) \<and> \<not> is_function_pattern v c r
                          \<and> k + rank_in v (p # ps) (r, c) < length data
                       then data ! (k + rank_in v (p # ps) (r, c)) \<noteq> 0 else f r c"
  show ?case
  proof (cases "\<not> is_function_pattern v x y \<and> k < length data")
    case True
    let ?f1 = "\<lambda>r c. if r = y \<and> c = x then data ! k \<noteq> 0 else f r c"
    from set_cell_agrees [OF Cons.prems(1) yx, of "data ! k \<noteq> 0"] obtain m1 where
      m1: "set_cell y x (data ! k \<noteq> 0) m = Inr m1" "agrees n m1 ?f1" by blast
    from True m1(1) have step: "data_cell v data y x (m, k) = Inr (m1, k + 1)"
      by (simp add: data_cell_def)
    from Cons.IH [OF m1(2) d(1), of "k + 1"] Cons.prems(3) obtain m' k' where
      m': "for_each ps (\<lambda>(y, x). data_cell v data y x) (m1, k + 1) = Inr (m', k')"
        "agrees n m' (\<lambda>r c. if (r, c) \<in> set ps \<and> \<not> is_function_pattern v c r
                               \<and> k + 1 + rank_in v ps (r, c) < length data
                            then data ! (k + 1 + rank_in v ps (r, c)) \<noteq> 0 else ?f1 r c)"
      by fastforce
    have "agrees n m' ?goal"
      by (rule agrees_cong [OF m'(2)]) (use d(2) p True in \<open>auto simp: rank_in_Cons\<close>)
    with step m'(1) p show ?thesis by auto
  next
    case False
    then have step: "data_cell v data y x (m, k) = Inr (m, k)"
      by (auto simp: data_cell_def)
    from Cons.IH [OF Cons.prems(1) d(1), of k] Cons.prems(3) obtain m' k' where
      m': "for_each ps (\<lambda>(y, x). data_cell v data y x) (m, k) = Inr (m', k')"
        "agrees n m' (\<lambda>r c. if (r, c) \<in> set ps \<and> \<not> is_function_pattern v c r
                               \<and> k + rank_in v ps (r, c) < length data
                            then data ! (k + rank_in v ps (r, c)) \<noteq> 0 else f r c)"
      by fastforce
    have "agrees n m' ?goal"
      by (rule agrees_cong [OF m'(2)]) (use d(2) p False in \<open>auto simp: rank_in_Cons\<close>)
    with step m'(1) p show ?thesis by auto
  qed
qed

lemma add_data_agrees:
  assumes "agrees (matrix_size v) m f"
  shows "\<exists>m'. add_data v data m = Inr m' \<and> agrees (matrix_size v) m' (data_fn v data f)"
proof -
  let ?n = "matrix_size v"
  have d: "distinct (row_major v)" by (simp add: row_major_def distinct_product)
  have r: "\<And>y x. (y, x) \<in> set (row_major v) \<Longrightarrow> 0 \<le> y \<and> y < ?n \<and> 0 \<le> x \<and> x < ?n"
    by (auto simp: row_major_def)
  from data_loop_agrees [OF assms d r, of v data 0] obtain m' k' where
    m': "for_each (row_major v) (\<lambda>(y, x). data_cell v data y x) (m, 0) = Inr (m', k')"
      "agrees ?n m' (\<lambda>r c. if (r, c) \<in> set (row_major v) \<and> \<not> is_function_pattern v c r
                               \<and> 0 + rank_in v (row_major v) (r, c) < length data
                            then data ! (0 + rank_in v (row_major v) (r, c)) \<noteq> 0 else f r c)"
    by blast
  have "agrees ?n m' (data_fn v data f)"
    by (rule agrees_cong [OF m'(2)]) (auto simp: row_major_def data_fn_def data_rank_def)
  with m'(1) show ?thesis by (simp add: add_data_def for_each_nested row_major_def)
qed

lemma build_matrix_agrees:
  assumes "agrees (matrix_size v) m f" "1 \<le> v"
  shows "\<exists>m'. build_matrix v data m = Inr m' \<and> agrees (matrix_size v) m' (build_fn v data f)"
proof -
  let ?n = "matrix_size v"
  from assms(2) have n: "9 \<le> ?n" by (simp add: matrix_size_def)
  from add_finder_patterns_agrees [OF assms] obtain m1 where
    m1: "add_finder_patterns v m = Inr m1" "agrees ?n m1 (finder_fn v f)" by blast
  from add_alignment_patterns_agrees [OF m1(2) assms(2)] obtain m2 where
    m2: "add_alignment_patterns v m1 = Inr m2" "agrees ?n m2 (alignment_fn v (finder_fn v f))"
    by blast
  from add_timing_patterns_agrees [OF m2(2) assms(2)] obtain m3 where
    m3: "add_timing_patterns v m2 = Inr m3"
      "agrees ?n m3 (timing_fn v (alignment_fn v (finder_fn v f)))" by blast
  from add_dark_module_agrees [OF m3(2) assms(2)] obtain m4 where
    m4: "add_dark_module v m3 = Inr m4"
      "agrees ?n m4 (dark_fn v (timing_fn v (alignment_fn v (finder_fn v f))))" by blast
  from add_format_info_agrees [OF m4(2) n] obtain m5 where
    m5: "add_format_info m4 = Inr m5"
      "agrees ?n m5 (format_fn (dark_fn v (timing_fn v (alignment_fn v (finder_fn v f)))))"
    by blast
  from add_data_agrees [OF m5(2), of data] obtain m6 where
    m6: "add_data v data m5 = Inr m6"
      "agrees ?n m6 (data_fn v data (format_fn (dark_fn v (timing_fn v (alignment_fn v
         (finder_fn v f))))))" by blast
  from apply_mask_agrees [OF m6(2)] obtain m7 where
    m7: "apply_mask v m6 = Inr m7" "agrees ?n m7 (build_fn v data f)"
    by (auto simp: build_fn_def)
  from m1(1) m2(1) m3(1) m4(1) m5(1) m6(1) m7 show ?thesis
    by (simp add: build_matrix_def bind_err_def)
qed

lemma wf_new_matrix: "wf_grid (matrix_size v) (new_matrix v)"
  by (simp add: wf_grid_def new_matrix_def)

lemma cell_new_matrix:
  "0 \<le> r \<Longrightarrow> r < matrix_size v \<Longrightarrow> 0 \<le> c \<Longrightarrow> c < matrix_size v \<Longrightarrow> cell (new_matrix v) r c = False"
  by (simp add: cell_def new_matrix_def)

lemma mask_fn_twice: "mask_fn v (mask_fn v f) = f"
  by (auto simp: mask_fn_def fun_eq_iff)

lemma apply_mask_twice:
  assumes "wf_grid (matrix_size v) m"
  shows "\<exists>m'. apply_mask v m = Inr m' \<and> apply_mask v m' = Inr m"
proof -
  from apply_mask_agrees [OF agrees_self [OF assms]] obtain m1 where
    m1: "apply_mask v m = Inr m1" "agrees (matrix_size v) m1 (mask_fn v (cell m))" by blast
  from apply_mask_agrees [OF m1(2)] obtain m2 where
    m2: "apply_mask v m1 = Inr m2" "agrees (matrix_size v) m2 (mask_fn v (mask_fn v (cell m)))"
    by blast
  from m2(2) have "agrees (matrix_size v) m2 (cell m)" by (simp add: mask_fn_twice)
  from agrees_eq [OF this agrees_self [OF assms]] m1(1) m2(1) show ?thesis by simp
qed

lemma utf8_encode_returns:
  "list_all (\<lambda>c. \<not> (0xD800 \<le> c \<and> c \<le> 0xDFFF)) t \<Longrightarrow> \<exists>bs. utf8_encode t = Inr bs"
  by (induction t) (auto simp: utf8_char_def)

lemma encode_returns:
  assumes "isdigit t \<Longrightarrow> list_all (\<lambda>c. to_decimal c \<noteq> None) t"
    and "\<not> isdigit t \<Longrightarrow> list_all (\<lambda>c. \<not> (0xD800 \<le> c \<and> c \<le> 0xDFFF)) t"
  shows "\<exists>e. encode v ec t = Inr e"
proof (cases "isdigit t")
  case True
  from numeric_loop_spec [of 0 t t, OF _ assms(1) [OF True]]
  show ?thesis using True by (simp add: encode_def encode_numeric_def Let_def)
next
  case False
  from utf8_encode_returns [OF assms(2) [OF False]] obtain bs where "utf8_encode t = Inr bs" ..
  with False show ?thesis by (simp add: encode_def encode_byte_def Let_def)
qed

lemma generate_agrees:
  assumes "1 \<le> version q" "wf_grid (matrix_size (version q)) (matrix q)"
    and "encode (version q) (error_correction q) t = Inr e"
  shows "\<exists>g. generate t q = Inr (g, q\<lparr>matrix := g\<rparr>)
           \<and> agrees (matrix_size (version q)) g
                (build_fn (version q) (e @ take 10 e) (cell (matrix q)))"
proof -
  from build_matrix_agrees [OF agrees_self [OF assms(2)] assms(1), of "e @ take 10 e"]
  obtain g where "build_matrix (version q) (e @ take 10 e) (matrix q) = Inr g"
    "agrees (matrix_size (version q)) g (build_fn (version q) (e @ take 10 e) (cell (matrix q)))"
    by blast
  with assms(3) show ?thesis
    by (simp add: generate_def reed_solomon_encode_def Let_def)
qed

lemma generate_InrD:
  assumes "1 \<le> version q" "wf_grid (matrix_size (version q)) (matrix q)"
    and "generate t q = Inr (g, q')"
  shows "\<exists>e. encode (version q) (error_correction q) t = Inr e
           \<and> q' = q\<lparr>matrix := g\<rparr>
           \<and> agrees (matrix_size (version q)) g
                (build_fn (version q) (e @ take 10 e) (cell (matrix q)))"
proof -
  from assms(3) obtain e where e: "encode (version q) (error_correction q) t = Inr e"
    by (auto simp: generate_def split: sum.splits)
  from generate_agrees [OF assms(1,2) e] assms(3) e show ?thesis by auto
qed

lemma is_function_pattern_finder:
  "0 \<le> i \<Longrightarrow> i < 7 \<Longrightarrow> 0 \<le> j \<Longrightarrow> j < 7 \<Longrightarrow>
   is_function_pattern v i j \<and> is_function_pattern v (matrix_size v - 7 + i) j
   \<and> is_function_pattern v i (matrix_size v - 7 + j)"
  by (simp add: is_function_pattern_def)

lemma build_fn_function_pattern:
  "is_function_pattern v c r \<Longrightarrow>
   build_fn v data f r c = format_fn (dark_fn v (timing_fn v (alignment_fn v (finder_fn v f)))) r c"
  by (simp add: build_fn_def mask_fn_def data_fn_def)

lemma build_fn_finder:
  assumes "1 \<le> v" "0 \<le> i" "i < 7" "0 \<le> j" "j < 7"
  shows "build_fn v data f j i = finder_dark i j"
    and "build_fn v data f j (matrix_size v - 7 + i) = finder_dark i j"
    and "build_fn v data f (matrix_size v - 7 + j) i = finder_dark i j"
proof -
  from assms(1) have n: "21 \<le> matrix_size v" by (simp add: matrix_size_def)
  note fp = is_function_pattern_finder [OF assms(2-5), of v]
  have al: "alignment_fn v h r c = h r c" if "r < 7 \<or> c < 7" for h r c
    using that assms(1) by (auto simp: alignment_fn_def stamp_def matrix_size_def)
  show "build_fn v data f j i = finder_dark i j"
    using assms n fp
    by (simp add: build_fn_function_pattern format_fn_def dark_fn_def timing_fn_def al
        finder_fn_def stamp_def)
  show "build_fn v data f j (matrix_size v - 7 + i) = finder_dark i j"
    using assms n fp
    by (simp add: build_fn_function_pattern format_fn_def dark_fn_def timing_fn_def al
        finder_fn_def stamp_def)
  show "build_fn v data f (matrix_size v - 7 + j) i = finder_dark i j"
    using assms n fp
    by (simp add: build_fn_function_pattern format_fn_def dark_fn_def timing_fn_def al
        finder_fn_def stamp_def)
qed

lemma build_matrix_function_patterns:
  "build_matrix v data m =
     bind_err (function_patterns v m) (\<lambda>m. bind_err (add_data v data m) (apply_mask v))"
  by (simp add: build_matrix_def function_patterns_def bind_err_def split: sum.splits)

lemma function_patterns_agrees:
  assumes "agrees (matrix_size v) m f" "1 \<le> v"
  shows "\<exists>m'. function_patterns v m = Inr m' \<and> agrees (matrix_size v) m' (fixed_fn v f)"
proof -
  let ?n = "matrix_size v"
  from assms(2) have n: "9 \<le> ?n" by (simp add: matrix_size_def)
  from add_finder_patterns_agrees [OF assms] obtain m1 where
    m1: "add_finder_patterns v m = Inr m1" "agrees ?n m1 (finder_fn v f)" by blast
  from add_alignment_patterns_agrees [OF m1(2) assms(2)] obtain m2 where
    m2: "add_alignment_patterns v m1 = Inr m2" "agrees ?n m2 (alignment_fn v (finder_fn v f))"
    by blast
  from add_timing_patterns_agrees [OF m2(2) assms(2)] obtain m3 where
    m3: "add_timing_patterns v m2 = Inr m3"
      "agrees ?n m3 (timing_fn v (alignment_fn v (finder_fn v f)))" by blast
  from add_dark_module_agrees [OF m3(2) assms(2)] obtain m4 where
    m4: "add_dark_module v m3 = Inr m4"
      "agrees ?n m4 (dark_fn v (timing_fn v (alignment_fn v (finder_fn v f))))" by blast
  from add_format_info_agrees [OF m4(2) n] obtain m5 where
    m5: "add_format_info m4 = Inr m5" "agrees ?n m5 (fixed_fn v f)"
    by (auto simp: fixed_fn_def)
  from m1(1) m2(1) m3(1) m4(1) m5 show ?thesis
    by (simp add: function_patterns_def bind_err_def)
qed

lemma build_fn_fixed: "build_fn v data f = mask_fn v (data_fn v data (fixed_fn v f))"
  by (simp add: build_fn_def fixed_fn_def)

text \<open>Outside the function-pattern cells only the alignment stamp writes.\<close>

lemma fixed_fn_free:
  assumes "1 \<le> v" "\<not> is_function_pattern v c r"
  shows "fixed_fn v f r c = (if in_alignment v r c then alignment_fn v (\<lambda>_ _. False) r c else f r c)"
proof -
  from assms(1) have n: "21 \<le> matrix_size v" by (simp add: matrix_size_def)
  from assms(2) have np: "\<not> (c < 9 \<and> r < 9)" "c \<noteq> 6" "r \<noteq> 6"
    "\<not> (c > matrix_size v - 9 \<and> r < 9)" "\<not> (c < 9 \<and> r > matrix_size v - 9)"
    by (auto simp: is_function_pattern_def split: if_splits)
  have fmt: "format_fn h r c = h r c" for h
    using np by (auto simp: format_fn_def)
  have drk: "dark_fn v h r c = h r c" for h
    using np by (auto simp: dark_fn_def matrix_size_def)
  have tim: "timing_fn v h r c = h r c" for h
    using np by (auto simp: timing_fn_def)
  have fnd: "finder_fn v f r c = f r c"
    using np n by (auto simp: finder_fn_def stamp_def)
  have "alignment_fn v (finder_fn v f) r c =
          (if in_alignment v r c then alignment_fn v (\<lambda>_ _. False) r c else f r c)"
  proof (cases "v = 1")
    case True
    then have "alignment_fn v h = h" "\<not> in_alignment v r c" for h
      by (simp_all add: alignment_fn_def in_alignment_def)
    with fnd show ?thesis by simp
  next
    case False
    show ?thesis
    proof (cases "v \<le> 6")
      case True
      with False fnd show ?thesis
        by (simp add: alignment_fn_def in_alignment_def stamp_def Let_def)
    next
      case v: False
      with False fnd show ?thesis
        by (simp add: alignment_fn_def in_alignment_def stamp_def Let_def)
    qed
  qed
  then show ?thesis by (simp add: fixed_fn_def fmt drk tim)
qed

text \<open>
  Each pattern step decides the value of a cell from the position alone or leaves the
  cell as it was.
\<close>

lemma pointwise_comp:
  assumes "pointwise F r c" "pointwise G r c"
  shows "pointwise (\<lambda>g. F (G g)) r c"
proof -
  from assms obtain W1 w1 W2 w2 where
    F: "\<And>g. F g r c = (if W1 then w1 else g r c)" and
    G: "\<And>g. G g r c = (if W2 then w2 else g r c)"
    unfolding pointwise_def by blast
  have "\<forall>g. F (G g) r c = (if W1 \<or> W2 then (if W1 then w1 else w2) else g r c)"
    by (simp add: F G)
  then show ?thesis unfolding pointwise_def by blast
qed

lemma pointwise_stamp: "pointwise (stamp x y w pat) r c"
  unfolding pointwise_def stamp_def by blast

lemma pointwise_id: "pointwise (\<lambda>g. g) r c"
  unfolding pointwise_def by (rule exI [of _ False]) simp

lemma pointwise_finder: "pointwise (finder_fn v) r c"
  unfolding finder_fn_def
  by (intro pointwise_comp [of "stamp _ _ _ _" _ _ "\<lambda>g. stamp _ _ _ _ (stamp _ _ _ _ g)"]
        pointwise_comp [of "stamp _ _ _ _" _ _ "stamp _ _ _ _"] pointwise_stamp)

lemma pointwise_const: "(\<And>g. F g r c = k) \<Longrightarrow> pointwise F r c"
  unfolding pointwise_def by (rule exI [of _ True], rule exI [of _ k]) simp

lemma pointwise_pass: "(\<And>g. F g r c = g r c) \<Longrightarrow> pointwise F r c"
  unfolding pointwise_def by (rule exI [of _ False]) simp

lemma pointwise_alignment: "pointwise (alignment_fn v) r c"
  by (cases "v = 1"; cases "v \<le> 6")
     (simp_all add: alignment_fn_def [abs_def] pointwise_id pointwise_stamp)

lemma pointwise_timing: "pointwise (timing_fn v) r c"
proof (cases "c = 6 \<and> 8 \<le> r \<and> r < matrix_size v - 8")
  case True
  then show ?thesis by (intro pointwise_const [of _ _ _ "r mod 2 = 0"]) (simp add: timing_fn_def)
next
  case a: False
  show ?thesis
  proof (cases "r = 6 \<and> 8 \<le> c \<and> c < matrix_size v - 8")
    case True
    with a show ?thesis
      by (intro pointwise_const [of _ _ _ "c mod 2 = 0"]) (simp add: timing_fn_def)
  next
    case False
    with a show ?thesis by (intro pointwise_pass) (auto simp: timing_fn_def)
  qed
qed

lemma pointwise_dark: "pointwise (dark_fn v) r c"
  unfolding pointwise_def dark_fn_def by blast

lemma pointwise_format: "pointwise format_fn r c"
  unfolding pointwise_def format_fn_def by blast

lemma pointwise_fixed: "pointwise (fixed_fn v) r c"
proof -
  have 1: "pointwise (\<lambda>g. alignment_fn v (finder_fn v g)) r c"
    by (rule pointwise_comp [OF pointwise_alignment pointwise_finder])
  have 2: "pointwise (\<lambda>g. timing_fn v (alignment_fn v (finder_fn v g))) r c"
    by (rule pointwise_comp [OF pointwise_timing 1])
  have 3: "pointwise (\<lambda>g. dark_fn v (timing_fn v (alignment_fn v (finder_fn v g)))) r c"
    by (rule pointwise_comp [OF pointwise_dark 2])
  have "pointwise (\<lambda>g. format_fn (dark_fn v (timing_fn v (alignment_fn v (finder_fn v g))))) r c"
    by (rule pointwise_comp [OF pointwise_format 3])
  then show ?thesis by (simp add: fixed_fn_def [abs_def])
qed

lemma fixed_fn_pointwise: "g r c = f r c \<Longrightarrow> fixed_fn v g r c = fixed_fn v f r c"
  using pointwise_fixed [of v r c] unfolding pointwise_def by metis

lemma fixed_fn_idem: "fixed_fn v (fixed_fn v f) r c = fixed_fn v f r c"
  using pointwise_fixed [of v r c] unfolding pointwise_def by metis

lemma build_fn_twice:
  assumes "1 \<le> v"
  shows "build_fn v data (build_fn v data f) r c =
           (if toggled v (length data) r c then \<not> build_fn v data f r c
            else build_fn v data f r c)"
proof (cases "is_function_pattern v c r")
  case True
  then have b: "build_fn v data h r c = fixed_fn v h r c" for h
    by (simp add: build_fn_fixed mask_fn_def data_fn_def)
  have "fixed_fn v (build_fn v data f) r c = fixed_fn v (fixed_fn v f) r c"
    by (rule fixed_fn_pointwise) (rule b)
  with True show ?thesis by (simp add: b fixed_fn_idem toggled_def)
next
  case False
  note fr = fixed_fn_free [OF assms False]
  show ?thesis
    using False
    by (simp add: build_fn_fixed mask_fn_def data_fn_def fr toggled_def)
qed

lemma build_fn_pointwise:
  assumes "g r c = f r c"
  shows "build_fn v data g r c = build_fn v data f r c"
proof -
  from assms have "fixed_fn v g r c = fixed_fn v f r c" by (rule fixed_fn_pointwise)
  then show ?thesis by (simp add: build_fn_fixed mask_fn_def data_fn_def)
qed

lemma capacity_ge_10: "10 \<le> get_capacity v ec"
  by (cases ec) (simp_all add: get_capacity_def capacities_def)

lemma generate_twice_cells:
  assumes "1 \<le> version q" "wf_grid (matrix_size (version q)) (matrix q)"
    and "generate t q = Inr (g1, q1)"
  shows "\<exists>g2 q2. generate t q1 = Inr (g2, q2)
     \<and> (\<forall>r c. 0 \<le> r \<and> r < matrix_size (version q) \<and> 0 \<le> c \<and> c < matrix_size (version q) \<longrightarrow>
          cell g2 r c =
            (if toggled (version q) (get_capacity (version q) (error_correction q) + 10) r c
             then \<not> cell g1 r c else cell g1 r c))"
proof -
  let ?v = "version q" and ?n = "matrix_size (version q)"
  from generate_InrD [OF assms] obtain e where
    e: "encode ?v (error_correction q) t = Inr e" and q1: "q1 = q\<lparr>matrix := g1\<rparr>"
    and g1: "agrees ?n g1 (build_fn ?v (e @ take 10 e) (cell (matrix q)))" by blast
  from encode_length [OF e] capacity_ge_10 [of ?v "error_correction q"]
  have len: "length (e @ take 10 e) = get_capacity ?v (error_correction q) + 10" by simp
  from g1 have wf1: "wf_grid ?n g1" by (simp add: agrees_def)
  from q1 assms(1) wf1 e have
    "1 \<le> version q1" "wf_grid (matrix_size (version q1)) (matrix q1)"
    "encode (version q1) (error_correction q1) t = Inr e" by simp_all
  from generate_agrees [OF this] q1 obtain g2 where
    g2: "generate t q1 = Inr (g2, q1\<lparr>matrix := g2\<rparr>)"
      "agrees ?n g2 (build_fn ?v (e @ take 10 e) (cell g1))" by auto
  have "cell g2 r c =
          (if toggled ?v (get_capacity ?v (error_correction q) + 10) r c
           then \<not> cell g1 r c else cell g1 r c)"
    if rc: "0 \<le> r" "r < ?n" "0 \<le> c" "c < ?n" for r c
  proof -
    let ?b = "build_fn ?v (e @ take 10 e)"
    have c1: "cell g1 r c = ?b (cell (matrix q)) r c" by (rule agreesD [OF g1 rc])
    have "cell g2 r c = ?b (cell g1) r c" by (rule agreesD [OF g2(2) rc])
    also have "\<dots> = ?b (?b (cell (matrix q))) r c"
      by (rule build_fn_pointwise) (rule c1)
    finally show ?thesis
      using build_fn_twice [OF assms(1), of "e @ take 10 e" "cell (matrix q)" r c] c1 len
      by simp
  qed
  with g2(1) show ?thesis by blast
qed

subsection \<open>Concrete objects\<close>

lemma QRCode_init_sel [simp]:
  "version (QRCode_init v ec) = v" "error_correction (QRCode_init v ec) = ec"
  "matrix (QRCode_init v ec) = new_matrix v"
  by (simp_all add: QRCode_init_def)

lemma matrix_size_1 [simp]: "matrix_size 1 = 21"
  by (simp add: matrix_size_def)

lemma isdigit_one: "isdigit [0x31]"
  by (simp add: isdigit_def isdigit_char_def to_decimal_ascii)

lemma generate_one: "\<exists>g q'. generate [0x31] (QRCode_init 1 M) = Inr (g, q')"
proof -
  have "\<exists>e. encode 1 M [0x31] = Inr e"
    by (rule encode_returns) (simp_all add: isdigit_one to_decimal_ascii)
  then obtain e where "encode (version (QRCode_init 1 M)) (error_correction (QRCode_init 1 M)) [0x31] = Inr e"
    by auto
  from generate_agrees [OF _ _ this] wf_new_matrix [of 1] show ?thesis by auto
qed

lemma upto_0_20: "[0..20::int] = [0,1,2,3,4,5,6,7,8,9,10,11,12,13,14,15,16,17,18,19,20]"
  by (simp add: upto_rec1)

lemma data_rank_1_9_15: "data_rank 1 9 15 = 46"
  by (simp add: data_rank_def rank_in_def row_major_def py_range_def upto_0_20
      is_function_pattern_def)

lemma data_rank_1_0_9: "data_rank 1 0 9 = 0" "data_rank 1 0 10 = 1"
  by (simp_all add: data_rank_def rank_in_def row_major_def py_range_def upto_0_20
      is_function_pattern_def)

section \<open>Masking\<close>

text \<open>
  C9. The masking step is self-inverse: on every grid of the object's size (for any
  version), the mask step returns a grid, and the mask step applied to that grid
  returns the grid it started from, cell for cell.
\<close>

theorem apply_mask_self_inverse:
  "wf_grid (matrix_size v) m \<Longrightarrow> \<exists>m'. apply_mask v m = Inr m' \<and> apply_mask v m' = Inr m"
  by (rule apply_mask_twice)

theorem apply_mask_self_inverse_witness:
  "wf_grid (matrix_size 1) (new_matrix 1)
   \<and> (\<exists>m'. apply_mask 1 (new_matrix 1) = Inr m' \<and> apply_mask 1 m' = Inr (new_matrix 1))"
  using apply_mask_self_inverse [OF wf_new_matrix [of 1]] wf_new_matrix [of 1] by simp

section \<open>The finder blocks of the final grid\<close>

lemma generate_cell:
  assumes "1 \<le> version q" "wf_grid (matrix_size (version q)) (matrix q)"
    and "generate t q = Inr (g, q')"
    and "0 \<le> r" "r < matrix_size (version q)" "0 \<le> c" "c < matrix_size (version q)"
  shows "\<exists>data. cell g r c = build_fn (version q) data (cell (matrix q)) r c"
proof -
  from generate_InrD [OF assms(1-3)] obtain e where
    "agrees (matrix_size (version q)) g (build_fn (version q) (e @ take 10 e) (cell (matrix q)))"
    by blast
  from agreesD [OF this assms(4-7)] show ?thesis by blast
qed

lemma generate_finder:
  assumes "1 \<le> version q" "wf_grid (matrix_size (version q)) (matrix q)"
    and "generate t q = Inr (g, q')" and "0 \<le> i" "i < 7" "0 \<le> j" "j < 7"
  shows "cell g j i = finder_dark i j"
    and "cell g j (matrix_size (version q) - 7 + i) = finder_dark i j"
    and "cell g (matrix_size (version q) - 7 + j) i = finder_dark i j"
proof -
  let ?n = "matrix_size (version q)"
  from assms(1) have n: "21 \<le> ?n" by (simp add: matrix_size_def)
  note b = build_fn_finder [OF assms(1,4-7)]
  from generate_cell [OF assms(1-3), of j i] assms(4-7) n b(1)
  show "cell g j i = finder_dark i j" by auto
  from generate_cell [OF assms(1-3), of j "?n - 7 + i"] assms(4-7) n b(2)
  show "cell g j (?n - 7 + i) = finder_dark i j" by auto
  from generate_cell [OF assms(1-3), of "?n - 7 + j" i] assms(4-7) n b(3)
  show "cell g (?n - 7 + j) i = finder_dark i j" by auto
qed

text \<open>
  C8. In the grid returned by \<open>generate\<close>, for a positive version, in each of the three
  7x7 blocks anchored at column 0 row 0, column size-7 row 0 and column 0 row size-7,
  the cell at column index \<open>i\<close> and row index \<open>j\<close> of the block is dark exactly when
  one of the two indices is 0 or 6 or both lie in 2..4.
\<close>

theorem generate_finder_blocks:
  assumes "1 \<le> version q" and "wf_grid (matrix_size (version q)) (matrix q)"
    and "generate text q = Inr (g, q')"
    and "0 \<le> i" "i < 7" "0 \<le> j" "j < 7"
  shows "cell g j i = (i = 0 \<or> i = 6 \<or> j = 0 \<or> j = 6 \<or> (2 \<le> i \<and> i \<le> 4 \<and> 2 \<le> j \<and> j \<le> 4))
     \<and> cell g j (matrix_size (version q) - 7 + i)
         = (i = 0 \<or> i = 6 \<or> j = 0 \<or> j = 6 \<or> (2 \<le> i \<and> i \<le> 4 \<and> 2 \<le> j \<and> j \<le> 4))
     \<and> cell g (matrix_size (version q) - 7 + j) i
         = (i = 0 \<or> i = 6 \<or> j = 0 \<or> j = 6 \<or> (2 \<le> i \<and> i \<le> 4 \<and> 2 \<le> j \<and> j \<le> 4))"
  using generate_finder [OF assms] by (simp add: finder_dark_def)

theorem generate_finder_blocks_witness:
  "1 \<le> version (QRCode_init 1 M)
   \<and> wf_grid (matrix_size (version (QRCode_init 1 M))) (matrix (QRCode_init 1 M))
   \<and> (\<exists>g q'. generate [0x31] (QRCode_init 1 M) = Inr (g, q')
        \<and> cell g 0 0 \<and> cell g 0 14 \<and> cell g 14 0
        \<and> \<not> cell g 1 1 \<and> \<not> cell g 1 15 \<and> \<not> cell g 15 1)"
proof -
  have v: "1 \<le> version (QRCode_init 1 M)" by simp
  have wf: "wf_grid (matrix_size (version (QRCode_init 1 M))) (matrix (QRCode_init 1 M))"
    using wf_new_matrix [of 1] by simp
  from generate_one obtain g q' where g: "generate [0x31] (QRCode_init 1 M) = Inr (g, q')"
    by blast
  from generate_finder_blocks [OF v wf g, of 0 0] generate_finder_blocks [OF v wf g, of 1 1]
  have "cell g 0 0 \<and> cell g 0 14 \<and> cell g 14 0 \<and> \<not> cell g 1 1 \<and> \<not> cell g 1 15 \<and> \<not> cell g 15 1"
    by simp
  with v wf g show ?thesis by blast
qed

section \<open>The dark module\<close>

lemma dark_module_function_pattern: "is_function_pattern v 8 (4 * v + 9)"
  by (simp add: is_function_pattern_def matrix_size_def)

lemma generate_dark_module:
  assumes "1 \<le> version q" "wf_grid (matrix_size (version q)) (matrix q)"
    and "generate t q = Inr (g, q')"
  shows "cell g (4 * version q + 9) 8"
proof -
  let ?v = "version q"
  from assms(1) have rc: "0 \<le> 4 * ?v + 9" "4 * ?v + 9 < matrix_size ?v" "(0::int) \<le> 8"
    "8 < matrix_size ?v" by (simp_all add: matrix_size_def)
  from generate_cell [OF assms rc] obtain data where
    "cell g (4 * ?v + 9) 8 = build_fn ?v data (cell (matrix q)) (4 * ?v + 9) 8" by blast
  also have "\<dots>" using assms(1)
    by (simp add: build_fn_function_pattern dark_module_function_pattern format_fn_def
        dark_fn_def)
  finally show ?thesis .
qed

text \<open>
  The specification's reading of C10, that the predicate is false at the dark-module
  cell, fails already for version 1: the predicate is true at column 8, row 13.
\<close>

theorem dark_module_is_reserved_counterexample: "is_function_pattern 1 8 (4 * 1 + 9)"
  by (simp add: is_function_pattern_def)

text \<open>
  C10, as amended. For every version the function-pattern predicate is true at the
  dark-module cell (column 8, row 4 * version + 9): the cell lies in the margin
  \<open>x < 9 and y > size - 9\<close>. Data placement and masking therefore skip it, and in the
  grid returned by \<open>generate\<close>, for a positive version, the cell is dark.
\<close>

theorem dark_module_is_reserved:
  "is_function_pattern v 8 (4 * v + 9)
   \<and> (1 \<le> version q \<and> wf_grid (matrix_size (version q)) (matrix q)
        \<and> generate text q = Inr (g, q')
      \<longrightarrow> cell g (4 * version q + 9) 8)"
  using dark_module_function_pattern generate_dark_module by blast

theorem dark_module_is_reserved_witness:
  "is_function_pattern 1 8 13
   \<and> 1 \<le> version (QRCode_init 1 M)
   \<and> wf_grid (matrix_size (version (QRCode_init 1 M))) (matrix (QRCode_init 1 M))
   \<and> (\<exists>g q'. generate [0x31] (QRCode_init 1 M) = Inr (g, q') \<and> cell g 13 8)"
proof -
  have v: "1 \<le> version (QRCode_init 1 M)" by simp
  have wf: "wf_grid (matrix_size (version (QRCode_init 1 M))) (matrix (QRCode_init 1 M))"
    using wf_new_matrix [of 1] by simp
  from generate_one obtain g q' where g: "generate [0x31] (QRCode_init 1 M) = Inr (g, q')"
    by blast
  from dark_module_is_reserved [of 1 "QRCode_init 1 M" "[0x31]" g q'] v wf g
  have "is_function_pattern 1 8 13 \<and> cell g 13 8" by simp
  with v wf g show ?thesis by blast
qed

section \<open>Format information\<close>

lemma agrees_new_matrix: "agrees (matrix_size v) (new_matrix v) (\<lambda>r c. False)"
  by (rule agrees_cong [OF agrees_self [OF wf_new_matrix]]) (simp add: cell_new_matrix)

text \<open>
  The step writes light into row 8, columns 0 to 5 and 7, and into column 8, rows 0 to 6:
  the index map \<open>i if i != 6 else 7\<close> sends both 6 and 7 to column 7, so fourteen cells
  are written and the cell in row 8, column 8 keeps what it held.
\<close>

lemma add_format_info_cells:
  assumes "wf_grid n m" "9 \<le> n"
  shows "\<exists>m'. add_format_info m = Inr m' \<and> wf_grid n m'
     \<and> (\<forall>r c. 0 \<le> r \<and> r < n \<and> 0 \<le> c \<and> c < n \<longrightarrow>
          cell m' r c =
            (if (r = 8 \<and> (0 \<le> c \<and> c \<le> 5 \<or> c = 7)) \<or> (c = 8 \<and> 0 \<le> r \<and> r \<le> 6)
             then False else cell m r c))"
proof -
  from add_format_info_agrees [OF agrees_self [OF assms(1)] assms(2)] obtain m' where
    "add_format_info m = Inr m'" "agrees n m' (format_fn (cell m))" by blast
  then show ?thesis by (auto simp: agrees_def format_fn_def)
qed


section \<open>Exceptions\<close>

text \<open>
  \<open>generate\<close> returns for a positive version whenever the text either fails
  \<open>isdigit\<close> and holds no surrogate code point, or consists of decimal digits.
\<close>

lemma generate_returns:
  assumes "1 \<le> version q" "wf_grid (matrix_size (version q)) (matrix q)"
    and "isdigit t \<Longrightarrow> list_all (\<lambda>c. to_decimal c \<noteq> None) t"
    and "\<not> isdigit t \<Longrightarrow> list_all (\<lambda>c. \<not> (0xD800 \<le> c \<and> c \<le> 0xDFFF)) t"
  shows "\<exists>g. generate t q = Inr (g, q\<lparr>matrix := g\<rparr>) \<and> wf_grid (matrix_size (version q)) g"
proof -
  from encode_returns [OF assms(3,4)] obtain e where
    "encode (version q) (error_correction q) t = Inr e" by blast
  from generate_agrees [OF assms(1,2) this] show ?thesis by (auto simp: agrees_def)
qed

lemma to_decimal_superscript_two: "to_decimal 0xB2 = None"
  by (simp add: to_decimal_def decimal_zeros_def)

lemma isdigit_superscript_two: "isdigit [0xB2]"
  by (simp add: isdigit_def isdigit_char_def other_digit_ranges_def)

lemma numeric_loop_superscript_two: "numeric_loop [0xB2] 0 result = Inl ValueError"
  by (subst numeric_loop.simps) (simp add: py_int_def to_decimal_superscript_two)

text \<open>
  C3, evaluated where the code departs from it. The text made of the one character
  U+00B2 (superscript two) passes \<open>str.isdigit\<close>, so numeric mode is chosen, and
  \<open>int\<close> rejects it: \<open>generate\<close> on a version 1, level M object raises \<open>ValueError\<close>.
\<close>

theorem generate_superscript_two_raises:
  "generate [0xB2] (QRCode_init 1 M) = Inl ValueError"
  by (simp add: generate_def encode_def isdigit_superscript_two encode_numeric_def
      numeric_loop_superscript_two)

section \<open>Data placement\<close>

lemma add_data_cells:
  assumes "wf_grid (matrix_size v) m"
  shows "\<exists>m'. add_data v data m = Inr m' \<and> wf_grid (matrix_size v) m'
     \<and> (\<forall>r c. 0 \<le> r \<and> r < matrix_size v \<and> 0 \<le> c \<and> c < matrix_size v \<longrightarrow>
          cell m' r c =
            (if \<not> is_function_pattern v c r \<and> data_rank v r c < length data
             then data ! data_rank v r c \<noteq> 0 else cell m r c))"
proof -
  from add_data_agrees [OF agrees_self [OF assms], of data] obtain m' where
    "add_data v data m = Inr m'" "agrees (matrix_size v) m' (data_fn v data (cell m))" by blast
  then show ?thesis by (auto simp: agrees_def data_fn_def)
qed

lemma matrix_size_2 [simp]: "matrix_size 2 = 25"
  by (simp add: matrix_size_def)

text \<open>
  The specification's reading of C4, that every cell left without a bit is light
  after the step, fails for version 2: on a new grid carrying the function patterns,
  with an empty bit list, the cell of row 16, column 16 (the corner of the alignment
  stamp, which the predicate does not count as a function-pattern cell) receives no
  bit and is dark after the step.
\<close>

theorem add_data_remaining_cells_counterexample:
  "\<not> isl (bind_err (function_patterns 2 (new_matrix 2)) (add_data 2 []))
   \<and> \<not> is_function_pattern 2 16 16
   \<and> cell (projr (bind_err (function_patterns 2 (new_matrix 2)) (add_data 2 []))) 16 16"
proof -
  from function_patterns_agrees [OF agrees_new_matrix [of 2]] obtain m1 where
    m1: "function_patterns 2 (new_matrix 2) = Inr m1"
      "agrees (matrix_size 2) m1 (fixed_fn 2 (\<lambda>r c. False))" by auto
  from add_data_agrees [OF m1(2), of "[]"] obtain m2 where
    m2: "add_data 2 [] m1 = Inr m2"
      "agrees (matrix_size 2) m2 (data_fn 2 [] (fixed_fn 2 (\<lambda>r c. False)))" by blast
  have nf: "\<not> is_function_pattern 2 16 16" by (simp add: is_function_pattern_def)
  have "cell m2 16 16 = data_fn 2 [] (fixed_fn 2 (\<lambda>r c. False)) 16 16"
    by (rule agreesD [OF m2(2)]) simp_all
  also have "\<dots> = fixed_fn 2 (\<lambda>r c. False) 16 16" by (simp add: data_fn_def)
  also have "\<dots>"
    by (simp add: fixed_fn_free nf in_alignment_def alignment_fn_def stamp_def
        alignment_dark_def)
  finally have "cell m2 16 16" .
  with m1(1) m2(1) nf show ?thesis by (simp add: bind_err_def)
qed

text \<open>
  C4, as amended. For every version and every bit list, on a grid of the object's size,
  the data-placement step returns a grid of the same size in which the cell of row
  \<open>r\<close>, column \<open>c\<close> holds bit number \<open>data_rank v r c\<close> (the number of cells that are
  not function-pattern cells and come before it in row-major order), dark for a bit
  other than 0, when the cell is not a function-pattern cell and the bit list is that
  long; every other cell, so every function-pattern cell and every cell left when the
  bits are exhausted, holds what it held before the step.
\<close>

theorem add_data_places_bits:
  "wf_grid (matrix_size v) m \<Longrightarrow>
   \<exists>m'. add_data v data m = Inr m' \<and> wf_grid (matrix_size v) m'
     \<and> (\<forall>r c. 0 \<le> r \<and> r < matrix_size v \<and> 0 \<le> c \<and> c < matrix_size v \<longrightarrow>
          cell m' r c =
            (if \<not> is_function_pattern v c r \<and> data_rank v r c < length data
             then data ! data_rank v r c \<noteq> 0 else cell m r c))"
  by (rule add_data_cells)

theorem add_data_places_bits_witness:
  "wf_grid (matrix_size 1) (new_matrix 1)
   \<and> (\<exists>m'. add_data 1 [1] (new_matrix 1) = Inr m' \<and> wf_grid (matrix_size 1) m'
        \<and> cell m' 0 9 \<and> \<not> cell m' 0 10)"
proof -
  from add_data_places_bits [OF wf_new_matrix [of 1], of "[1]"] obtain m' where
    m': "add_data 1 [1] (new_matrix 1) = Inr m'" "wf_grid (matrix_size 1) m'"
    and c: "\<And>r c. 0 \<le> r \<and> r < matrix_size 1 \<and> 0 \<le> c \<and> c < matrix_size 1 \<Longrightarrow>
          cell m' r c =
            (if \<not> is_function_pattern 1 c r \<and> data_rank 1 r c < length [1::int]
             then [1::int] ! data_rank 1 r c \<noteq> 0 else cell (new_matrix 1) r c)"
    by blast
  from c [of 0 9] have "cell m' 0 9"
    by (simp add: data_rank_1_0_9 is_function_pattern_def)
  moreover from c [of 0 10] have "\<not> cell m' 0 10"
    by (simp add: data_rank_1_0_9 cell_new_matrix)
  ultimately show ?thesis using m' wf_new_matrix [of 1] by blast
qed

section \<open>Successive calls on one object\<close>

lemma capacity_1_M: "get_capacity 1 M = 34"
  by (simp add: get_capacity_def capacities_def)

lemma toggled_1_9_15: "toggled 1 44 9 15"
  by (simp add: toggled_def is_function_pattern_def data_rank_1_9_15 in_alignment_def)

lemma generate_twice_one:
  "\<exists>g1 q1 g2 q2. generate [0x31] (QRCode_init 1 M) = Inr (g1, q1)
     \<and> generate [0x31] q1 = Inr (g2, q2) \<and> cell g2 9 15 = (\<not> cell g1 9 15)"
proof -
  from generate_one obtain g1 q1 where
    g1: "generate [0x31] (QRCode_init 1 M) = Inr (g1, q1)" by blast
  have v: "1 \<le> version (QRCode_init 1 M)" by simp
  have wf: "wf_grid (matrix_size (version (QRCode_init 1 M))) (matrix (QRCode_init 1 M))"
    using wf_new_matrix [of 1] by simp
  from generate_twice_cells [OF v wf g1] obtain g2 q2 where
    g2: "generate [0x31] q1 = Inr (g2, q2)"
    and c: "\<And>r c. 0 \<le> r \<and> r < 21 \<and> 0 \<le> c \<and> c < 21 \<Longrightarrow>
          cell g2 r c = (if toggled 1 44 r c then \<not> cell g1 r c else cell g1 r c)"
    by (auto simp: capacity_1_M)
  from c [of 9 15] have "cell g2 9 15 = (\<not> cell g1 9 15)" by (simp add: toggled_1_9_15)
  with g1 g2 show ?thesis by blast
qed

text \<open>
  The specification's reading of C1, that two successive calls with one text return
  equal grids, fails for a version 1, level M object and the text \<open>1\<close>: both calls
  return, and the two grids differ (at row 9, column 15, a cell beyond the 44 placed
  bits that the mask inverts on every call). \<open>generate_twice\<close> keeps a copy of the
  first grid as it was returned.
\<close>

theorem generate_twice_equal_counterexample:
  "\<not> isl (generate_twice [0x31] (QRCode_init 1 M))
   \<and> fst (projr (generate_twice [0x31] (QRCode_init 1 M)))
       \<noteq> snd (projr (generate_twice [0x31] (QRCode_init 1 M)))"
proof -
  from generate_twice_one obtain g1 q1 g2 q2 where
    g: "generate [0x31] (QRCode_init 1 M) = Inr (g1, q1)" "generate [0x31] q1 = Inr (g2, q2)"
    and c: "cell g2 9 15 = (\<not> cell g1 9 15)" by blast
  from g have t: "generate_twice [0x31] (QRCode_init 1 M) = Inr (g1, g2)"
    by (simp add: generate_twice_def)
  from c have "g1 \<noteq> g2" by auto
  with t show ?thesis by simp
qed

lemma generate_keeps_grid:
  assumes "1 \<le> version q" "wf_grid (matrix_size (version q)) (matrix q)"
    and "generate t q = Inr (g1, q1)"
  shows "q1 = q\<lparr>matrix := g1\<rparr>"
  using generate_InrD [OF assms] by blast

text \<open>
  C1, as amended. An object holds one grid, allocated by the constructor; every
  \<open>generate\<close> call writes into that grid and returns it, so the object's grid after a
  call is the grid returned. For a positive version, when a call returns, the next call
  with the same text returns too, and its grid equals the first one at every cell
  except the cells that are not function-pattern cells, have \<open>(x + y) mod 3 = 0\<close>,
  received no data bit (the bit list has capacity + 10 bits) and lie outside the
  alignment stamp: those cells are inverted by the second call.
\<close>

theorem generate_second_call:
  assumes "1 \<le> version q" and "wf_grid (matrix_size (version q)) (matrix q)"
    and "generate text q = Inr (g1, q1)"
  shows "q1 = q\<lparr>matrix := g1\<rparr>
     \<and> (\<exists>g2 q2. generate text q1 = Inr (g2, q2)
          \<and> (\<forall>r c. 0 \<le> r \<and> r < matrix_size (version q) \<and> 0 \<le> c \<and> c < matrix_size (version q) \<longrightarrow>
               cell g2 r c =
                 (if \<not> is_function_pattern (version q) c r \<and> (c + r) mod 3 = 0
                     \<and> get_capacity (version q) (error_correction q) + 10
                         \<le> data_rank (version q) r c
                     \<and> \<not> in_alignment (version q) r c
                  then \<not> cell g1 r c else cell g1 r c)))"
  using generate_keeps_grid [OF assms] generate_twice_cells [OF assms]
  by (simp add: toggled_def)

theorem generate_second_call_witness:
  "1 \<le> version (QRCode_init 1 M)
   \<and> wf_grid (matrix_size (version (QRCode_init 1 M))) (matrix (QRCode_init 1 M))
   \<and> (\<exists>g1 q1 g2 q2. generate [0x31] (QRCode_init 1 M) = Inr (g1, q1)
        \<and> q1 = (QRCode_init 1 M)\<lparr>matrix := g1\<rparr>
        \<and> generate [0x31] q1 = Inr (g2, q2)
        \<and> cell g2 9 15 = (\<not> cell g1 9 15) \<and> cell g2 0 0 = cell g1 0 0)"
proof -
  have v: "1 \<le> version (QRCode_init 1 M)" by simp
  have wf: "wf_grid (matrix_size (version (QRCode_init 1 M))) (matrix (QRCode_init 1 M))"
    using wf_new_matrix [of 1] by simp
  from generate_one obtain g1 q1 where
    g1: "generate [0x31] (QRCode_init 1 M) = Inr (g1, q1)" by blast
  from generate_second_call [OF v wf g1] obtain g2 q2 where
    q1: "q1 = (QRCode_init 1 M)\<lparr>matrix := g1\<rparr>" and g2: "generate [0x31] q1 = Inr (g2, q2)"
    and c: "\<And>r c. 0 \<le> r \<and> r < 21 \<and> 0 \<le> c \<and> c < 21 \<Longrightarrow>
          cell g2 r c =
            (if \<not> is_function_pattern 1 c r \<and> (c + r) mod 3 = 0
                \<and> 44 \<le> data_rank 1 r c \<and> \<not> in_alignment 1 r c
             then \<not> cell g1 r c else cell g1 r c)"
    by (auto simp: capacity_1_M)
  from c [of 9 15] have "cell g2 9 15 = (\<not> cell g1 9 15)"
    using toggled_1_9_15 by (simp add: toggled_def)
  moreover from c [of 0 0] have "cell g2 0 0 = cell g1 0 0"
    by (simp add: is_function_pattern_def)
  ultimately show ?thesis using v wf g1 q1 g2 by blast
qed

end
